theory Spec2Isabelle
  imports Main "HOL-Library.Sublist"
begin

section \<open>String helpers of the Go standard library\<close>

text \<open>
  Go strings are byte sequences; they are modelled as \<open>string\<close> (a list of 8-bit
  characters). \<open>strings.TrimSpace\<close> and \<open>strings.ToLower\<close> are modelled on their ASCII
  range: the six ASCII white space bytes and the letters A-Z. Go additionally treats
  some multi-byte code points as white space or as upper-case letters.
\<close>

definition isSpace :: "char \<Rightarrow> bool" where
  "isSpace c = (c \<in> set [CHR 0x09, CHR 0x0A, CHR 0x0B, CHR 0x0C, CHR 0x0D, CHR '' ''])"

definition TrimSpace :: "string \<Rightarrow> string" where
  "TrimSpace s = rev (dropWhile isSpace (rev (dropWhile isSpace s)))"

definition toLowerByte :: "char \<Rightarrow> char" where
  "toLowerByte c =
     (let n = (of_char c :: nat) in if 65 \<le> n \<and> n \<le> 90 then char_of (n + 32) else c)"

definition ToLower :: "string \<Rightarrow> string" where
  "ToLower s = map toLowerByte s"

text \<open>\<open>strings.TrimRight(s, cutset)\<close>: drop every trailing byte that occurs in the cutset.\<close>

definition TrimRight :: "string \<Rightarrow> string \<Rightarrow> string" where
  "TrimRight s cutset = rev (dropWhile (\<lambda>c. c \<in> set cutset) (rev s))"

text \<open>\<open>strings.Join(elems, sep)\<close>.\<close>

fun Join :: "string list \<Rightarrow> string \<Rightarrow> string" where
  "Join [] sep = []"
| "Join [x] sep = x"
| "Join (x # y # ys) sep = x @ sep @ Join (y # ys) sep"

text \<open>
  \<open>Cut s sep\<close> finds the first occurrence of \<open>sep\<close> in \<open>s\<close> and returns the text before
  and after it (Go's \<open>strings.Cut\<close>, the search step shared by \<open>Split\<close> and \<open>SplitN\<close>).
\<close>

fun Cut :: "string \<Rightarrow> string \<Rightarrow> (string \<times> string) option" where
  "Cut [] sep = (if sep = [] then Some ([], []) else None)"
| "Cut (c # cs) sep =
     (if prefix sep (c # cs) then Some ([], drop (length sep) (c # cs))
      else (case Cut cs sep of None \<Rightarrow> None | Some (a, b) \<Rightarrow> Some (c # a, b)))"

lemma Cut_shorter: "Cut s sep = Some (a, b) \<Longrightarrow> sep \<noteq> [] \<Longrightarrow> length b < length s"
proof (induction s arbitrary: a b)
  case Nil
  then show ?case by simp
next
  case (Cons c cs)
  show ?case
  proof (cases "prefix sep (c # cs)")
    case True
    with Cons.prems show ?thesis by auto
  next
    case False
    with Cons.prems obtain a' where "Cut cs sep = Some (a', b)"
      by (auto split: option.splits)
    with Cons.IH Cons.prems(2) show ?thesis by fastforce
  qed
qed

text \<open>
  \<open>strings.Split(s, sep)\<close> for a non-empty separator: all pieces between occurrences of
  the separator, so the result always has at least one element (\<open>Split "" "\n" = [""]\<close>).
  The source only calls it with the separator \<open>"\n"\<close>; the empty separator (where Go
  explodes the string into code points) is not modelled and returns \<open>[s]\<close>.
\<close>

function Split :: "string \<Rightarrow> string \<Rightarrow> string list" where
  "Split s sep =
     (if sep = [] then [s]
      else (case Cut s sep of None \<Rightarrow> [s] | Some (a, b) \<Rightarrow> a # Split b sep))"
  by pat_completeness auto
termination
  by (relation "measure (\<lambda>(s, sep). length s)") (auto dest: Cut_shorter)

declare Split.simps [simp del]

text \<open>\<open>strings.SplitN(s, sep, 2)\<close>: split at the first occurrence only.\<close>

definition SplitN2 :: "string \<Rightarrow> string \<Rightarrow> string list" where
  "SplitN2 s sep = (case Cut s sep of None \<Rightarrow> [s] | Some (a, b) \<Rightarrow> [a, b])"

section \<open>The environment: subprocesses, the console and the two web services\<close>

text \<open>
  Everything outside the program is an oracle over an abstract world \<open>'w\<close>:
  \<^item> \<open>exec_git args\<close> is \<open>exec.Command("git", args...).Run()\<close>: \<open>Inl stderr\<close> when
    \<open>cmd.Run\<close> returns an error, \<open>Inr stdout\<close> otherwise;
  \<^item> \<open>ai_call\<close> is the HTTP call of \<open>callOpenAI\<close>/\<open>callAnthropic\<close>, given the diff and
    the changed files the prompt is built from;
  \<^item> \<open>jira_create\<close> is \<open>Client.CreateIssue\<close> (\<open>Inr\<close> the key of the new issue) and
    \<open>jira_transition\<close> is \<open>Client.TransitionToInProgress\<close> (\<open>Some\<close> its error).
  Each oracle may change the world, so a push can change what a later query answers.
\<close>

record 'w env =
  exec_git :: "string list \<Rightarrow> 'w \<Rightarrow> (string + string) \<times> 'w"
  ai_call :: "string \<Rightarrow> string \<Rightarrow> string list \<Rightarrow> 'w \<Rightarrow> (string + string) \<times> 'w"
  jira_create :: "string \<Rightarrow> 'w \<Rightarrow> (string + string) \<times> 'w"
  jira_transition :: "string \<Rightarrow> 'w \<Rightarrow> string option \<times> 'w"

text \<open>
  What a run does is recorded as a trace of events, in order: every git subprocess with
  the value \<open>Git.run\<close> returned, every call of the message generator and of the two
  tracker operations with their results, every line read from standard input and every
  line printed (without the decorative glyphs of the source's messages).
\<close>

datatype event =
    Git "string list" "string + string"
  | Generate string "string list" "string + string"
  | JiraCreate string "string + string"
  | JiraTransition string "string option"
  | ReadLine string
  | Print string

record 'w state =
  world :: 'w
  stdin :: string
  trace :: "event list"

definition emit :: "event \<Rightarrow> 'w state \<Rightarrow> 'w state" where
  "emit e s = s\<lparr>trace := trace s @ [e]\<rparr>"

definition Println :: "string \<Rightarrow> 'w state \<Rightarrow> 'w state" where
  "Println msg s = emit (Print msg) s"

text \<open>
  \<open>bufio.Reader.ReadString('\n')\<close>: the bytes up to and including the first newline; at
  the end of the input, what is left (possibly nothing) and an error, which every caller
  in the source discards. The end of the input is sticky.
\<close>

fun splitLine :: "string \<Rightarrow> string \<times> string" where
  "splitLine [] = ([], [])"
| "splitLine (c # cs) =
     (if c = CHR 0x0A then ([c], cs)
      else (case splitLine cs of (l, r) \<Rightarrow> (c # l, r)))"

definition ReadString :: "'w state \<Rightarrow> string \<times> 'w state" where
  "ReadString s =
     (case splitLine (stdin s) of
        (l, r) \<Rightarrow> (l, emit (ReadLine l) (s\<lparr>stdin := r\<rparr>)))"

section \<open>internal/git/git.go\<close>

text \<open>\<open>Git.run\<close>: the trimmed standard output, or an error naming the command.\<close>

definition run :: "'w env \<Rightarrow> string list \<Rightarrow> 'w state \<Rightarrow> (string + string) \<times> 'w state" where
  "run E args s =
     (case exec_git E args (world s) of
        (out, w') \<Rightarrow>
          (let r = (case out of
                      Inl stderr \<Rightarrow> Inl (''git '' @ Join args '' '' @ '' failed: '' @ stderr)
                    | Inr stdout \<Rightarrow> Inr (TrimSpace stdout))
           in (r, emit (Git args r) (s\<lparr>world := w'\<rparr>))))"

text \<open>
  The revision expression naming the upstream of a branch: the branch name, an at sign
  (byte 0x40) and \<open>{upstream}\<close>.
\<close>

definition upstreamOf :: "string \<Rightarrow> string" where
  "upstreamOf branch = branch @ [CHR 0x40] @ ''{upstream}''"

definition IsRepo :: "'w env \<Rightarrow> 'w state \<Rightarrow> bool \<times> 'w state" where
  "IsRepo E s =
     (case run E [''rev-parse'', ''--git-dir''] s of
        (Inl err, s1) \<Rightarrow> (False, s1)
      | (Inr out, s1) \<Rightarrow> (True, s1))"

definition GetStagedDiff :: "'w env \<Rightarrow> 'w state \<Rightarrow> (string + string) \<times> 'w state" where
  "GetStagedDiff E s = run E [''diff'', ''--cached''] s"

definition GetAllDiff :: "'w env \<Rightarrow> 'w state \<Rightarrow> (string + string) \<times> 'w state" where
  "GetAllDiff E s = run E [''diff'', ''HEAD''] s"

definition GetCurrentBranch :: "'w env \<Rightarrow> 'w state \<Rightarrow> (string + string) \<times> 'w state" where
  "GetCurrentBranch E s = run E [''rev-parse'', ''--abbrev-ref'', ''HEAD''] s"

definition GetUnpushedCommitMessages ::
  "'w env \<Rightarrow> 'w state \<Rightarrow> (string + string list) \<times> 'w state" where
  "GetUnpushedCommitMessages E s =
     (case GetCurrentBranch E s of
        (Inl err, s1) \<Rightarrow> (Inl err, s1)
      | (Inr branch, s1) \<Rightarrow>
          (case run E [''rev-parse'', ''--abbrev-ref'', upstreamOf branch] s1 of
             (Inl err, s2) \<Rightarrow> (Inr [], s2)
           | (Inr upstream, s2) \<Rightarrow>
               (case run E [''log'', upstream @ ''..HEAD'', ''--format=%h - %s''] s2 of
                  (Inl err, s3) \<Rightarrow> (Inl err, s3)
                | (Inr output, s3) \<Rightarrow>
                    (if output = [] then (Inr [], s3)
                     else (Inr (Split output [CHR 0x0A]), s3)))))"

definition GetUnpushedDiff :: "'w env \<Rightarrow> 'w state \<Rightarrow> (string + string) \<times> 'w state" where
  "GetUnpushedDiff E s =
     (case GetCurrentBranch E s of
        (Inl err, s1) \<Rightarrow> (Inl err, s1)
      | (Inr branch, s1) \<Rightarrow>
          (case run E [''rev-parse'', ''--abbrev-ref'', upstreamOf branch] s1 of
             (Inl err, s2) \<Rightarrow>
               run E [''diff'', ''4b825dc642cb6eb9a060e54bf8d69288fbee4904..HEAD''] s2
           | (Inr upstream, s2) \<Rightarrow> run E [''diff'', upstream @ ''..HEAD''] s2))"

text \<open>
  \<open>GetRemote\<close>. The test \<open>len(remotes) == 0\<close> is kept as the source has it, on the
  result of \<open>strings.Split\<close>.
\<close>

definition GetRemote :: "'w env \<Rightarrow> 'w state \<Rightarrow> (string + string) \<times> 'w state" where
  "GetRemote E s =
     (case run E [''remote''] s of
        (Inl err, s1) \<Rightarrow> (Inl err, s1)
      | (Inr output, s1) \<Rightarrow>
          (let remotes = Split output [CHR 0x0A] in
           if length remotes = 0 then (Inl ''no remote configured'', s1)
           else if ''origin'' \<in> set remotes then (Inr ''origin'', s1)
           else (Inr (hd remotes), s1)))"

definition HasStagedChanges :: "'w env \<Rightarrow> 'w state \<Rightarrow> (string + bool) \<times> 'w state" where
  "HasStagedChanges E s =
     (case run E [''diff'', ''--cached'', ''--name-only''] s of
        (Inl err, s1) \<Rightarrow> (Inl err, s1)
      | (Inr output, s1) \<Rightarrow> (Inr (output \<noteq> []), s1))"

definition HasUnstagedChanges :: "'w env \<Rightarrow> 'w state \<Rightarrow> (string + bool) \<times> 'w state" where
  "HasUnstagedChanges E s =
     (case run E [''diff'', ''--name-only''] s of
        (Inl err, s1) \<Rightarrow> (Inl err, s1)
      | (Inr output, s1) \<Rightarrow> (Inr (output \<noteq> []), s1))"

definition StageAll :: "'w env \<Rightarrow> 'w state \<Rightarrow> string option \<times> 'w state" where
  "StageAll E s =
     (case run E [''add'', ''-A''] s of
        (Inl err, s1) \<Rightarrow> (Some err, s1)
      | (Inr out, s1) \<Rightarrow> (None, s1))"

definition Commit :: "'w env \<Rightarrow> string \<Rightarrow> 'w state \<Rightarrow> string option \<times> 'w state" where
  "Commit E message s =
     (case run E [''commit'', ''-m'', message] s of
        (Inl err, s1) \<Rightarrow> (Some err, s1)
      | (Inr out, s1) \<Rightarrow> (None, s1))"

definition Push :: "'w env \<Rightarrow> 'w state \<Rightarrow> string option \<times> 'w state" where
  "Push E s =
     (case GetRemote E s of
        (Inl err, s1) \<Rightarrow> (Some err, s1)
      | (Inr remote, s1) \<Rightarrow>
          (case GetCurrentBranch E s1 of
             (Inl err, s2) \<Rightarrow> (Some err, s2)
           | (Inr branch, s2) \<Rightarrow>
               (case run E [''push'', remote, branch] s2 of
                  (Inl err, s3) \<Rightarrow> (Some err, s3)
                | (Inr out, s3) \<Rightarrow> (None, s3))))"

definition PushSetUpstream :: "'w env \<Rightarrow> 'w state \<Rightarrow> string option \<times> 'w state" where
  "PushSetUpstream E s =
     (case GetRemote E s of
        (Inl err, s1) \<Rightarrow> (Some err, s1)
      | (Inr remote, s1) \<Rightarrow>
          (case GetCurrentBranch E s1 of
             (Inl err, s2) \<Rightarrow> (Some err, s2)
           | (Inr branch, s2) \<Rightarrow>
               (case run E [''push'', ''-u'', remote, branch] s2 of
                  (Inl err, s3) \<Rightarrow> (Some err, s3)
                | (Inr out, s3) \<Rightarrow> (None, s3))))"

definition GetChangedFiles :: "'w env \<Rightarrow> 'w state \<Rightarrow> (string + string list) \<times> 'w state" where
  "GetChangedFiles E s =
     (case run E [''diff'', ''--name-only'', ''HEAD''] s of
        (Inr output, s1) \<Rightarrow>
          (if output = [] then (Inr [], s1) else (Inr (Split output [CHR 0x0A]), s1))
      | (Inl err, s1) \<Rightarrow>
          (case run E [''diff'', ''--cached'', ''--name-only''] s1 of
             (Inl err2, s2) \<Rightarrow> (Inl err2, s2)
           | (Inr output, s2) \<Rightarrow>
               (if output = [] then (Inr [], s2) else (Inr (Split output [CHR 0x0A]), s2))))"

definition IsFirstPushToBranch :: "'w env \<Rightarrow> 'w state \<Rightarrow> (string + bool) \<times> 'w state" where
  "IsFirstPushToBranch E s =
     (case GetCurrentBranch E s of
        (Inl err, s1) \<Rightarrow> (Inl err, s1)
      | (Inr branch, s1) \<Rightarrow>
          (case run E [''rev-parse'', ''--abbrev-ref'', upstreamOf branch] s1 of
             (Inl err, s2) \<Rightarrow> (Inr True, s2)
           | (Inr upstream, s2) \<Rightarrow> (Inr False, s2)))"

definition IsMainBranch :: "'w env \<Rightarrow> 'w state \<Rightarrow> bool \<times> 'w state" where
  "IsMainBranch E s =
     (case GetCurrentBranch E s of
        (Inl err, s1) \<Rightarrow> (False, s1)
      | (Inr branch, s1) \<Rightarrow> (branch = ''main'' \<or> branch = ''master'', s1))"

section \<open>internal/jira/jira.go and internal/ai/ai.go\<close>

record jiraClient =
  baseURL :: string
  email :: string
  apiToken :: string
  project :: string

definition IsConfigured :: "jiraClient \<Rightarrow> bool" where
  "IsConfigured c = (baseURL c \<noteq> [] \<and> email c \<noteq> [] \<and> apiToken c \<noteq> [] \<and> project c \<noteq> [])"

text \<open>
  \<open>CreateIssueWithTitle\<close>: create the issue, then try to move it to In Progress; a
  failed transition is printed as a warning and the formatted title is returned all the
  same.
\<close>

definition CreateIssueWithTitle ::
  "'w env \<Rightarrow> string \<Rightarrow> 'w state \<Rightarrow> (string + string) \<times> 'w state" where
  "CreateIssueWithTitle E commitMessage s =
     (case jira_create E commitMessage (world s) of
        (r, w1) \<Rightarrow>
          (let s1 = emit (JiraCreate commitMessage r) (s\<lparr>world := w1\<rparr>) in
           case r of
             Inl err \<Rightarrow> (Inl (''failed to create issue: '' @ err), s1)
           | Inr key \<Rightarrow>
               (case jira_transition E key (world s1) of
                  (t, w2) \<Rightarrow>
                    (let s2 = emit (JiraTransition key t) (s1\<lparr>world := w2\<rparr>);
                         s3 = (case t of
                                 Some err \<Rightarrow>
                                   Println (''Warning: Could not transition to In Progress: '' @ err) s2
                               | None \<Rightarrow> s2)
                     in (Inr (key @ '' - '' @ commitMessage), s3)))))"

definition GetIssueURL :: "jiraClient \<Rightarrow> string \<Rightarrow> string" where
  "GetIssueURL c issueKey = baseURL c @ ''/browse/'' @ issueKey"

text \<open>
  \<open>GenerateCommitMessage\<close>: an empty diff and an unknown provider are refused before any
  request is sent. Every call is recorded with its result.
\<close>

definition GenerateCommitMessage ::
  "'w env \<Rightarrow> string \<Rightarrow> string \<Rightarrow> string list \<Rightarrow> 'w state \<Rightarrow> (string + string) \<times> 'w state" where
  "GenerateCommitMessage E prov diff changedFiles s =
     (if diff = [] then
        (Inl ''no diff provided'', emit (Generate diff changedFiles (Inl ''no diff provided'')) s)
      else if prov = ''openai'' \<or> prov = ''anthropic'' then
        (case ai_call E prov diff changedFiles (world s) of
           (r, w1) \<Rightarrow> (r, emit (Generate diff changedFiles r) (s\<lparr>world := w1\<rparr>)))
      else
        (let r = Inl (''unsupported provider: '' @ prov)
         in (r, emit (Generate diff changedFiles r) s)))"

section \<open>The command: configuration and the blocks shared by both orchestrators\<close>

text \<open>
  The values a run reads from the configuration file (viper), the process environment
  and the two command-line flags.
\<close>

record config =
  api_key :: string
  env_openai :: string
  env_anthropic :: string
  provider :: string
  model :: string
  jira_url :: string
  jira_email :: string
  jira_token :: string
  jira_project :: string
  autoConfirm :: bool
  stageAll :: bool

definition jiraNew :: "config \<Rightarrow> jiraClient" where
  "jiraNew cfg =
     \<lparr>baseURL = jira_url cfg, email = jira_email cfg,
      apiToken = jira_token cfg, project = jira_project cfg\<rparr>"

definition resolveApiKey :: "config \<Rightarrow> string" where
  "resolveApiKey cfg =
     (if api_key cfg \<noteq> [] then api_key cfg
      else if env_openai cfg \<noteq> [] then env_openai cfg
      else env_anthropic cfg)"

definition resolveProvider :: "config \<Rightarrow> string" where
  "resolveProvider cfg =
     (if provider cfg \<noteq> [] then provider cfg
      else if env_anthropic cfg \<noteq> [] then ''anthropic''
      else ''openai'')"

definition apiKeyHelp :: string where
  "apiKeyHelp =
     ''API key not configured. Set it up using one of:'' @ [CHR 0x0A] @
     ''  1. Run: gh-assistant config --api-key YOUR_KEY'' @ [CHR 0x0A] @
     ''  2. Set environment variable: export OPENAI_API_KEY=your_key'' @ [CHR 0x0A] @
     ''  3. Set environment variable: export ANTHROPIC_API_KEY=your_key''"

text \<open>The rule line that frames a proposal on the console.\<close>

definition ruleLine :: string where
  "ruleLine = ''---------------------------------------------------''"

text \<open>
  The branch of \<open>switch input\<close> that the answer to the confirmation prompt selects, after
  \<open>input = strings.TrimSpace(strings.ToLower(input))\<close>, in the order of the source's cases.
\<close>

datatype choice = Reject | Edit | Accept | Invalid

definition classifyInput :: "string \<Rightarrow> choice" where
  "classifyInput raw =
     (let input = TrimSpace (ToLower raw) in
      if input = ''n'' \<or> input = ''no'' then Reject
      else if input = ''e'' \<or> input = ''edit'' then Edit
      else if input = [] \<or> input = ''y'' \<or> input = ''yes'' then Accept
      else Invalid)"

text \<open>
  The loop that collects the edited message. It ends only on an empty line read after
  at least one non-empty line; the option type makes a loop that never ends the value
  \<open>None\<close>.
\<close>

partial_function (option) editLoop ::
  "string list \<Rightarrow> 'w state \<Rightarrow> (string list \<times> 'w state) option" where
  "editLoop lines s =
     (case ReadString s of
        (raw, s1) \<Rightarrow>
          (let line = TrimRight raw [CHR 0x0A, CHR 0x0D] in
           if line = [] \<and> lines \<noteq> [] then Some (lines, s1)
           else editLoop (if line \<noteq> [] then lines @ [line] else lines) s1))"

declare editLoop.simps [code]

text \<open>
  The block "Confirm with user" (\<open>runPushx\<close> lines 156-188, \<open>runPush\<close> lines 142-174):
  \<open>Some (None, s)\<close> is the early \<open>return nil\<close>, \<open>Some (Some m, s)\<close> goes on with the
  message \<open>m\<close>, \<open>None\<close> is an edit loop that never ends.
\<close>

definition confirmMessage ::
  "bool \<Rightarrow> string \<Rightarrow> 'w state \<Rightarrow> (string option \<times> 'w state) option" where
  "confirmMessage auto message s =
     (if auto then Some (Some message, s)
      else
        (case ReadString (Println ''Proceed with this message? [Y/n/e(dit)]: '' s) of
           (raw, s1) \<Rightarrow>
             (case classifyInput raw of
                Reject \<Rightarrow> Some (None, Println ''Aborted'' s1)
              | Edit \<Rightarrow>
                  (case editLoop []
                          (Println ''Enter your commit message (press Enter twice to finish):'' s1) of
                     None \<Rightarrow> None
                   | Some (lines, s2) \<Rightarrow>
                       Some (Some (if length lines > 0 then Join lines [CHR 0x0A] else message), s2))
              | Accept \<Rightarrow> Some (Some message, s1)
              | Invalid \<Rightarrow> Some (None, Println ''Invalid input, aborted'' s1))))"

text \<open>
  The block "Create Jira ticket on first push to a new branch" (\<open>runPushx\<close> lines
  214-242, \<open>runPush\<close> lines 236-264), entered once the push has succeeded.
\<close>

definition createTicket ::
  "'w env \<Rightarrow> config \<Rightarrow> string \<Rightarrow> bool \<Rightarrow> bool \<Rightarrow> 'w state \<Rightarrow> string option \<times> 'w state" where
  "createTicket E cfg message isFirstPush isMainBranch s =
     (let s1 = Println ''Successfully pushed!'' s in
      if isFirstPush \<and> \<not> isMainBranch then
        (let jiraClient = jiraNew cfg in
         if IsConfigured jiraClient then
           (case CreateIssueWithTitle E message
                   (Println ''Creating Jira ticket...'' (Println [] s1)) of
              (Inl err, s2) \<Rightarrow>
                (None, Println (''Warning: Failed to create Jira ticket: '' @ err) s2)
            | (Inr title, s2) \<Rightarrow>
                (let issueKey = hd (SplitN2 title '' - '')
                 in (None, Println (GetIssueURL jiraClient issueKey)
                             (Println (''Jira ticket created: '' @ title) s2))))
         else (None, s1))
      else (None, s1))"

text \<open>
  The blocks "Check if this is a first push" and "Push" (\<open>runPushx\<close> lines 199-212,
  \<open>runPush\<close> lines 221-234), followed by the ticket block. Both errors of the two
  snapshot queries are discarded by the source.
\<close>

definition pushAndTicket ::
  "'w env \<Rightarrow> config \<Rightarrow> string \<Rightarrow> 'w state \<Rightarrow> string option \<times> 'w state" where
  "pushAndTicket E cfg message s =
     (case IsFirstPushToBranch E s of
        (fp, s1) \<Rightarrow>
          (let isFirstPush = (case fp of Inl err \<Rightarrow> False | Inr b \<Rightarrow> b) in
           case IsMainBranch E s1 of
             (isMainBranch, s2) \<Rightarrow>
               (case Push E (Println ''Pushing to remote...'' s2) of
                  (None, s3) \<Rightarrow> createTicket E cfg message isFirstPush isMainBranch s3
                | (Some err, s3) \<Rightarrow>
                    (case PushSetUpstream E s3 of
                       (Some err2, s4) \<Rightarrow> (Some (''failed to push: '' @ err2), s4)
                     | (None, s4) \<Rightarrow> createTicket E cfg message isFirstPush isMainBranch s4))))"

section \<open>cmd/pushx.go: \<open>runPushx\<close>\<close>

text \<open>The error text that quotes \<open>git add\<close>; the quote is byte 0x27.\<close>

definition unstagedHelp :: string where
  "unstagedHelp =
     ''you have unstaged changes. Use -a flag to stage all, or stage manually with '' @
     [CHR 0x27] @ ''git add'' @ [CHR 0x27]"

text \<open>
  Lines 84-122: which diff is summarised. \<open>Inl\<close> is the error the run returns,
  \<open>Inr (diff, needsCommit)\<close> goes on. The error of \<open>HasUnstagedChanges\<close> is discarded
  (\<open>hasUnstaged, _ :=\<close>), which leaves \<open>hasUnstaged\<close> false.
\<close>

definition selectDiff :: "'w env \<Rightarrow> 'w state \<Rightarrow> (string + string \<times> bool) \<times> 'w state" where
  "selectDiff E s =
     (case HasStagedChanges E s of
        (Inl err, s1) \<Rightarrow> (Inl (''failed to check staged changes: '' @ err), s1)
      | (Inr hasStaged, s1) \<Rightarrow>
          (if hasStaged then
             (case GetStagedDiff E s1 of
                (Inl err, s2) \<Rightarrow> (Inl (''failed to get staged diff: '' @ err), s2)
              | (Inr diff, s2) \<Rightarrow> (Inr (diff, True), Println ''Found staged changes to commit'' s2))
           else
             (case (case GetUnpushedDiff E s1 of
                      (Inl err, s2) \<Rightarrow> GetAllDiff E s2
                    | (Inr d, s2) \<Rightarrow> (Inr d, s2)) of
                (Inl err, s3) \<Rightarrow> (Inl (''failed to get diff: '' @ err), s3)
              | (Inr diff, s3) \<Rightarrow>
                  (if diff = [] then
                     (case HasUnstagedChanges E s3 of
                        (r, s4) \<Rightarrow>
                          (if (case r of Inl err \<Rightarrow> False | Inr b \<Rightarrow> b) then (Inl unstagedHelp, s4)
                           else (Inl ''no changes to commit or push'', s4)))
                   else (Inr (diff, False), Println ''Found unpushed commits'' s3)))))"

text \<open>Lines 145-153: the proposal shown on the console.\<close>

definition showProposal :: "string \<Rightarrow> 'w state \<Rightarrow> 'w state" where
  "showProposal message s =
     Println [] (Println ruleLine (Println [] (Println (''   '' @ message)
       (Println [] (Println ''Generated commit message:'' (Println ruleLine (Println [] s)))))))"

text \<open>
  Lines 124-243, from the listing of the changed files on. The error of
  \<open>GetChangedFiles\<close> is discarded (\<open>changedFiles, _ =\<close>), which leaves the list empty.
\<close>

definition generateAndPush ::
  "'w env \<Rightarrow> config \<Rightarrow> string \<Rightarrow> bool \<Rightarrow> 'w state \<Rightarrow> (string option \<times> 'w state) option" where
  "generateAndPush E cfg diff needsCommit s =
     (case GetChangedFiles E s of
        (cf, s1) \<Rightarrow>
          (let changedFiles = (case cf of Inl err \<Rightarrow> [] | Inr fs \<Rightarrow> fs) in
           if diff = [] then Some (Some ''no changes detected'', s1)
           else
             (case GenerateCommitMessage E (resolveProvider cfg) diff changedFiles
                     (Println ''Generating commit message...'' s1) of
                (Inl err, s2) \<Rightarrow> Some (Some (''failed to generate commit message: '' @ err), s2)
              | (Inr generated, s2) \<Rightarrow>
                  (case confirmMessage (autoConfirm cfg) generated (showProposal generated s2) of
                     None \<Rightarrow> None
                   | Some (None, s3) \<Rightarrow> Some (None, s3)
                   | Some (Some message, s3) \<Rightarrow>
                       (if needsCommit then
                          (case Commit E message (Println ''Creating commit...'' s3) of
                             (Some err, s4) \<Rightarrow> Some (Some (''failed to commit: '' @ err), s4)
                           | (None, s4) \<Rightarrow>
                               Some (pushAndTicket E cfg message
                                       (Println (''Committed: '' @ message) s4)))
                        else Some (pushAndTicket E cfg message s3))))))"

text \<open>
  \<open>runPushx\<close>. The result is \<open>None\<close> when the run never returns, \<open>Some (None, s)\<close> when
  it returns \<open>nil\<close> and \<open>Some (Some err, s)\<close> when it returns the error \<open>err\<close>.
\<close>

definition runPushx :: "'w env \<Rightarrow> config \<Rightarrow> 'w state \<Rightarrow> (string option \<times> 'w state) option" where
  "runPushx E cfg s =
     (if resolveApiKey cfg = [] then Some (Some apiKeyHelp, s)
      else
        (case IsRepo E s of
           (False, s1) \<Rightarrow> Some (Some ''not a git repository'', s1)
         | (True, s1) \<Rightarrow>
             (case (if stageAll cfg then
                      StageAll E (Println ''Staging all changes...''
                                   (Println ''Analyzing your changes...'' s1))
                    else (None, Println ''Analyzing your changes...'' s1)) of
                (Some err, s2) \<Rightarrow> Some (Some (''failed to stage changes: '' @ err), s2)
              | (None, s2) \<Rightarrow>
                  (case selectDiff E s2 of
                     (Inl err, s3) \<Rightarrow> Some (Some err, s3)
                   | (Inr (diff, needsCommit), s3) \<Rightarrow> generateAndPush E cfg diff needsCommit s3))))"

section \<open>The second orchestrator: \<open>runPush\<close>\<close>

text \<open>Decimal digits of a natural number (\<open>%d\<close>).\<close>

fun Itoa :: "nat \<Rightarrow> string" where
  "Itoa n =
     (if n < 10 then [char_of (48 + n)]
      else Itoa (n div 10) @ [char_of (48 + n mod 10)])"

declare Itoa.simps [simp del]

text \<open>Lines 96-103: the unpushed commits are listed whenever there are any.\<close>

definition showUnpushed :: "string list \<Rightarrow> 'w state \<Rightarrow> 'w state" where
  "showUnpushed unpushedMessages s =
     (if length unpushedMessages > 0 then
        Println []
          (fold (\<lambda>msg. Println (''   * '' @ msg)) unpushedMessages
             (Println (''Found '' @ Itoa (length unpushedMessages) @ '' existing unpushed commit(s):'') s))
      else s)"

text \<open>
  Lines 105-181, case 1: staged changes. The message is generated, confirmed and
  committed. \<open>Inl\<close> is what the run returns at once, \<open>Inr message\<close> goes on to the push.
\<close>

definition commitStaged ::
  "'w env \<Rightarrow> config \<Rightarrow> 'w state \<Rightarrow> ((string option + string) \<times> 'w state) option" where
  "commitStaged E cfg s =
     (case GetStagedDiff E (Println ''Found staged changes to commit'' s) of
        (Inl err, s1) \<Rightarrow> Some (Inl (Some (''failed to get staged diff: '' @ err)), s1)
      | (Inr diff, s1) \<Rightarrow>
          (case GetChangedFiles E s1 of
             (cf, s2) \<Rightarrow>
               (let changedFiles = (case cf of Inl err \<Rightarrow> [] | Inr fs \<Rightarrow> fs) in
                case GenerateCommitMessage E (resolveProvider cfg) diff changedFiles
                       (Println ''Generating commit message...'' s2) of
                  (Inl err, s3) \<Rightarrow>
                    Some (Inl (Some (''failed to generate commit message: '' @ err)), s3)
                | (Inr generated, s3) \<Rightarrow>
                    (case confirmMessage (autoConfirm cfg) generated (showProposal generated s3) of
                       None \<Rightarrow> None
                     | Some (None, s4) \<Rightarrow> Some (Inl None, s4)
                     | Some (Some message, s4) \<Rightarrow>
                         (case Commit E message (Println ''Creating commit...'' s4) of
                            (Some err, s5) \<Rightarrow> Some (Inl (Some (''failed to commit: '' @ err)), s5)
                          | (None, s5) \<Rightarrow>
                              Some (Inr message, Println (''Committed: '' @ message) s5))))))"

text \<open>
  Lines 183-219, case 2: nothing staged. With no unpushed commit the run ends in an
  error; otherwise only the push is confirmed, and the message for the ticket is taken
  from the first listed commit, when that line has the form \<open>hash - subject\<close>.
\<close>

definition pushOnly ::
  "'w env \<Rightarrow> config \<Rightarrow> string list \<Rightarrow> 'w state \<Rightarrow> (string option + string) \<times> 'w state" where
  "pushOnly E cfg unpushedMessages s =
     (if \<not> length unpushedMessages > 0 then
        (case HasUnstagedChanges E s of
           (r, s1) \<Rightarrow>
             (if (case r of Inl err \<Rightarrow> False | Inr b \<Rightarrow> b) then (Inl (Some unstagedHelp), s1)
              else (Inl (Some ''no changes to commit or push''), s1)))
      else
        (let s1 = Println [] (Println ruleLine
                    (Println ''No new changes to commit. Ready to push existing commits.''
                      (Println ruleLine s)));
             parts = SplitN2 (hd unpushedMessages) '' - '';
             message = (if length parts = 2 then parts ! 1 else [])
         in
           if \<not> autoConfirm cfg then
             (case ReadString (Println ''Push these commits? [Y/n]: '' s1) of
                (raw, s2) \<Rightarrow>
                  (let input = TrimSpace (ToLower raw) in
                   if input = ''n'' \<or> input = ''no'' then (Inl None, Println ''Aborted'' s2)
                   else (Inr message, s2)))
           else (Inr message, s1)))"

text \<open>
  Lines 94-265: what follows the two observations \<open>hasStaged\<close> and
  \<open>unpushedMessages\<close>.
\<close>

definition commitOrPush ::
  "'w env \<Rightarrow> config \<Rightarrow> bool \<Rightarrow> string list \<Rightarrow> 'w state \<Rightarrow> (string option \<times> 'w state) option" where
  "commitOrPush E cfg hasStaged unpushedMessages s =
     (let s1 = showUnpushed unpushedMessages s in
      case (if hasStaged then commitStaged E cfg s1
            else Some (pushOnly E cfg unpushedMessages s1)) of
        None \<Rightarrow> None
      | Some (Inl r, s2) \<Rightarrow> Some (r, s2)
      | Some (Inr message, s2) \<Rightarrow> Some (pushAndTicket E cfg message s2))"

text \<open>
  \<open>runPush\<close>, with the result type of \<open>runPushx\<close>. The error of
  \<open>GetUnpushedCommitMessages\<close> is discarded (\<open>unpushedMessages, _ :=\<close>), which leaves
  the list empty.
\<close>

definition runPush :: "'w env \<Rightarrow> config \<Rightarrow> 'w state \<Rightarrow> (string option \<times> 'w state) option" where
  "runPush E cfg s =
     (if resolveApiKey cfg = [] then Some (Some apiKeyHelp, s)
      else
        (case IsRepo E s of
           (False, s1) \<Rightarrow> Some (Some ''not a git repository'', s1)
         | (True, s1) \<Rightarrow>
             (case (if stageAll cfg then
                      StageAll E (Println ''Staging all changes...''
                                   (Println ''Analyzing your changes...'' s1))
                    else (None, Println ''Analyzing your changes...'' s1)) of
                (Some err, s2) \<Rightarrow> Some (Some (''failed to stage changes: '' @ err), s2)
              | (None, s2) \<Rightarrow>
                  (case HasStagedChanges E s2 of
                     (Inl err, s3) \<Rightarrow> Some (Some (''failed to check staged changes: '' @ err), s3)
                   | (Inr hasStaged, s3) \<Rightarrow>
                       (case GetUnpushedCommitMessages E s3 of
                          (um, s4) \<Rightarrow>
                            commitOrPush E cfg hasStaged
                              (case um of Inl err \<Rightarrow> [] | Inr ms \<Rightarrow> ms) s4)))))"

section \<open>A repository double for concrete runs\<close>

text \<open>
  To run the orchestrators on concrete inputs, the world is instantiated with a small
  simulated repository. It answers exactly the git commands the program issues; a
  command listed in \<open>failing\<close> fails, which injects a fault at that query. The double
  refuses a plain push of a branch that has no upstream, so that the first push of a
  branch goes through the upstream-setting retry.
\<close>

record repo =
  branch :: string
  remotes :: "string list"
  tracking :: bool
  staged :: "string list"
  unstaged :: "string list"
  unpushed :: "string list"
  failing :: "string list list"

definition diffText :: "string list \<Rightarrow> string" where
  "diffText files = Join (map (\<lambda>f. ''diff --git a/'' @ f @ '' b/'' @ f) files) [CHR 0x0A]"

definition simGit :: "string list \<Rightarrow> repo \<Rightarrow> (string + string) \<times> repo" where
  "simGit args r =
     (let up = ''origin/'' @ branch r in
      if args \<in> set (failing r) then (Inl ''fatal: injected failure'', r)
      else if args = [''rev-parse'', ''--git-dir''] then (Inr ''.git'', r)
      else if args = [''add'', ''-A''] then
        (Inr [], r\<lparr>staged := staged r @ unstaged r, unstaged := []\<rparr>)
      else if args = [''diff'', ''--cached'', ''--name-only''] then
        (Inr (Join (staged r) [CHR 0x0A] @ [CHR 0x0A]), r)
      else if args = [''diff'', ''--cached''] then (Inr (diffText (staged r)), r)
      else if args = [''diff'', ''--name-only''] then (Inr (Join (unstaged r) [CHR 0x0A]), r)
      else if args = [''diff'', ''--name-only'', ''HEAD''] then
        (Inr (Join (staged r @ unstaged r) [CHR 0x0A]), r)
      else if args = [''diff'', ''HEAD''] then (Inr (diffText (staged r @ unstaged r)), r)
      else if args = [''rev-parse'', ''--abbrev-ref'', ''HEAD''] then
        (Inr (branch r @ [CHR 0x0A]), r)
      else if args = [''rev-parse'', ''--abbrev-ref'', upstreamOf (branch r)] then
        (if tracking r then (Inr up, r) else (Inl ''fatal: no upstream configured'', r))
      else if args = [''log'', up @ ''..HEAD'', ''--format=%h - %s''] then
        (Inr (Join (unpushed r) [CHR 0x0A]), r)
      else if args = [''diff'', up @ ''..HEAD''] then
        (Inr (if unpushed r = [] then [] else ''diff of unpushed commits''), r)
      else if args = [''diff'', ''4b825dc642cb6eb9a060e54bf8d69288fbee4904..HEAD''] then
        (Inr ''diff of the whole branch'', r)
      else if args = [''remote''] then (Inr (Join (remotes r) [CHR 0x0A]), r)
      else if take 2 args = [''commit'', ''-m''] \<and> length args = 3 then
        (if staged r = [] then (Inl ''nothing to commit'', r)
         else (Inr [], r\<lparr>staged := [], unpushed := (''abc1234 - '' @ args ! 2) # unpushed r\<rparr>))
      else if args = [''push'', hd (remotes r), branch r] \<and> remotes r \<noteq> [] then
        (if tracking r then (Inr [], r\<lparr>unpushed := []\<rparr>)
         else (Inl ''fatal: the current branch has no upstream branch'', r))
      else if args = [''push'', ''-u'', hd (remotes r), branch r] \<and> remotes r \<noteq> [] then
        (Inr [], r\<lparr>tracking := True, unpushed := []\<rparr>)
      else (Inl ''fatal: not simulated'', r))"

definition simEnv :: "repo env" where
  "simEnv =
     \<lparr>exec_git = simGit,
      ai_call = (\<lambda>prov diff files r. (Inr ''feat(api): add login'', r)),
      jira_create = (\<lambda>summary r. (Inr ''PROJ-7'', r)),
      jira_transition = (\<lambda>key r. (None, r))\<rparr>"

definition simConfig :: config where
  "simConfig =
     \<lparr>api_key = ''sk-test'', env_openai = [], env_anthropic = [], provider = ''openai'',
      model = [], jira_url = ''https://jira.example'', jira_email = ''dev@example'',
      jira_token = ''token'', jira_project = ''PROJ'', autoConfirm = False, stageAll = False\<rparr>"

text \<open>A feature branch that was never pushed, with one staged and one unstaged file.\<close>

definition simRepo :: repo where
  "simRepo =
     \<lparr>branch = ''feature/x'', remotes = [''origin''], tracking = False,
      staged = [''api.go''], unstaged = [''notes.md''], unpushed = [], failing = []\<rparr>"

definition start :: "'w \<Rightarrow> string \<Rightarrow> 'w state" where
  "start w input = \<lparr>world = w, stdin = input, trace = []\<rparr>"

section \<open>Views of the trace\<close>

definition isGit :: "event \<Rightarrow> bool" where
  "isGit e = (case e of Git args r \<Rightarrow> True | _ \<Rightarrow> False)"

text \<open>The git subprocesses that change the repository: \<open>add\<close>, \<open>commit\<close> and \<open>push\<close>.\<close>

definition isMutation :: "event \<Rightarrow> bool" where
  "isMutation e =
     (case e of
        Git args r \<Rightarrow> take 1 args = [''add''] \<or> take 1 args = [''commit''] \<or> take 1 args = [''push'']
      | _ \<Rightarrow> False)"

definition isPushCmd :: "event \<Rightarrow> bool" where
  "isPushCmd e = (case e of Git args r \<Rightarrow> take 1 args = [''push''] | _ \<Rightarrow> False)"

definition isQuery :: "event \<Rightarrow> bool" where
  "isQuery e = (isGit e \<and> \<not> isMutation e)"

definition isTicketCall :: "event \<Rightarrow> bool" where
  "isTicketCall e = (case e of JiraCreate m r \<Rightarrow> True | _ \<Rightarrow> False)"

definition isGeneratorCall :: "event \<Rightarrow> bool" where
  "isGeneratorCall e = (case e of Generate d fs r \<Rightarrow> True | _ \<Rightarrow> False)"

definition isPrint :: "event \<Rightarrow> bool" where
  "isPrint e = (case e of Print m \<Rightarrow> True | _ \<Rightarrow> False)"

definition isReadLine :: "event \<Rightarrow> bool" where
  "isReadLine e = (case e of ReadLine l \<Rightarrow> True | _ \<Rightarrow> False)"

text \<open>The staging command of the \<^verbatim>\<open>--all\<close> flag, \<open>git add -A\<close>.\<close>

definition isStageCmd :: "event \<Rightarrow> bool" where
  "isStageCmd e = (case e of Git args r \<Rightarrow> args = [''add'', ''-A''] | _ \<Rightarrow> False)"

text \<open>What a run may do before the message is confirmed: query, print, call the generator.\<close>

definition preConfirm :: "event \<Rightarrow> bool" where
  "preConfirm e = (isQuery e \<or> isPrint e \<or> isGeneratorCall e)"

definition ticketCalls :: "'w state \<Rightarrow> nat" where
  "ticketCalls s = length (filter isTicketCall (trace s))"

definition generatorCalls :: "'w state \<Rightarrow> nat" where
  "generatorCalls s = length (filter isGeneratorCall (trace s))"

definition mutations :: "'w state \<Rightarrow> event list" where
  "mutations s = filter isMutation (trace s)"


text \<open>The events a run added between two states.\<close>

definition newEvents :: "'w state \<Rightarrow> 'w state \<Rightarrow> event list" where
  "newEvents s s' = drop (length (trace s)) (trace s')"

text \<open>
  \<open>grows A s s'\<close>: the trace of \<open>s'\<close> is the trace of \<open>s\<close> followed by events that all
  satisfy \<open>A\<close>.
\<close>

definition grows :: "(event \<Rightarrow> bool) \<Rightarrow> 'w state \<Rightarrow> 'w state \<Rightarrow> bool" where
  "grows A s s' =
     (take (length (trace s)) (trace s') = trace s \<and> list_all A (newEvents s s'))"

text \<open>What a run may do up to and including its confirmation prompt.\<close>

definition answering :: "event \<Rightarrow> bool" where
  "answering e = (preConfirm e \<or> isReadLine e)"

text \<open>The same, with the staging command when \<open>all\<close> is set.\<close>

definition staging :: "bool \<Rightarrow> event \<Rightarrow> bool" where
  "staging all e = (answering e \<or> (all \<and> isStageCmd e))"

text \<open>What a run may do before the confirmation prompt.\<close>

definition prelude :: "bool \<Rightarrow> event \<Rightarrow> bool" where
  "prelude all e = (preConfirm e \<or> (all \<and> isStageCmd e))"

text \<open>Events that neither read the input, nor call the generator, nor ask for the message.\<close>

definition quiet :: "event \<Rightarrow> bool" where
  "quiet e = (\<not> isReadLine e \<and> \<not> isGeneratorCall e
              \<and> e \<noteq> Print ''Proceed with this message? [Y/n/e(dit)]: '')"

text \<open>The events of \<open>pushOnly\<close> after the listing of the unpushed commits.\<close>

definition pushOnlyEvents :: "bool \<Rightarrow> string \<Rightarrow> bool \<Rightarrow> event list" where
  "pushOnlyEvents auto raw declined =
     [Print ruleLine, Print ''No new changes to commit. Ready to push existing commits.'',
      Print ruleLine, Print []]
     @ (if auto then []
        else [Print ''Push these commits? [Y/n]: '', ReadLine raw]
             @ (if declined then [Print ''Aborted''] else []))"

text \<open>Everything but a push command and a call of the tracker.\<close>

definition beforeTail :: "event \<Rightarrow> bool" where
  "beforeTail e = (\<not> isPushCmd e \<and> \<not> isTicketCall e)"

text \<open>The events of the push phase: git subprocesses and the announcement of the push.\<close>

definition pushPhase :: "event \<Rightarrow> bool" where
  "pushPhase e = (isGit e \<or> e = Print ''Pushing to remote...'')"

text \<open>
  The steps of both orchestrators up to the staged-changes check (lines 67-82): the
  repository test, the first message and the optional \<open>StageAll\<close>, with its error.
\<close>

definition afterStaging :: "'w env \<Rightarrow> config \<Rightarrow> 'w state \<Rightarrow> string option \<times> 'w state" where
  "afterStaging E cfg s =
     (if stageAll cfg then
        StageAll E (Println ''Staging all changes...''
                     (Println ''Analyzing your changes...'' (snd (IsRepo E s))))
      else (None, Println ''Analyzing your changes...'' (snd (IsRepo E s))))"


section \<open>Lemmas on strings\<close>

lemma isSpace_code: "isSpace c \<Longrightarrow> (of_char c :: nat) \<le> 32"
  by (auto simp: isSpace_def)

lemma isSpace_toLowerByte: "isSpace (toLowerByte c) = isSpace c"
proof (cases "65 \<le> (of_char c :: nat) \<and> (of_char c :: nat) \<le> 90")
  case False
  then show ?thesis by (auto simp: toLowerByte_def Let_def)
next
  case True
  then have a: "\<not> isSpace c"
    using isSpace_code [of c] by auto
  have "(of_char (char_of (of_char c + 32 :: nat)) :: nat) = of_char c + 32"
    using True by simp
  then have "\<not> isSpace (char_of (of_char c + 32 :: nat))"
    using True isSpace_code [of "char_of (of_char c + 32 :: nat)"] by auto
  with a True show ?thesis by (simp add: toLowerByte_def Let_def)
qed

lemma allSpace_ToLower: "list_all isSpace (ToLower s) = list_all isSpace s"
  by (induction s) (simp_all add: ToLower_def isSpace_toLowerByte)

lemma dropWhile_pad_left: "list_all P l \<Longrightarrow> dropWhile P (l @ x) = dropWhile P x"
  by (induction l) simp_all

lemma dropWhile_pad_right:
  "list_all P r \<Longrightarrow>
   rev (dropWhile P (rev (dropWhile P (x @ r)))) = rev (dropWhile P (rev (dropWhile P x)))"
proof (cases "list_all P x")
  case True
  assume "list_all P r"
  with True have e: "dropWhile P (x @ r) = []" "dropWhile P x = []"
    by (simp_all add: list_all_iff dropWhile_eq_Nil_conv)
  show ?thesis unfolding e by (rule refl)
next
  case False
  assume r: "list_all P r"
  from False have "dropWhile P (x @ r) = dropWhile P x @ r"
    by (auto simp: list_all_iff dropWhile_append1)
  moreover have "dropWhile P (rev r @ rev (dropWhile P x)) = dropWhile P (rev (dropWhile P x))"
    using r by (simp add: dropWhile_pad_left list_all_iff)
  ultimately show ?thesis by simp
qed

lemma TrimSpace_pad:
  "list_all isSpace l \<Longrightarrow> list_all isSpace r \<Longrightarrow> TrimSpace (l @ x @ r) = TrimSpace x"
  unfolding TrimSpace_def by (simp add: dropWhile_pad_left dropWhile_pad_right)

lemma Split_nonempty: "Split s sep \<noteq> []"
  by (subst Split.simps) (simp split: option.splits)

text \<open>
  Whenever \<open>git remote\<close> succeeds, \<open>GetRemote\<close> succeeds: with \<open>origin\<close> when it is
  listed, with the first line of the listing otherwise.
\<close>

lemma GetRemote_resolves:
  "fst (run E [''remote''] s) = Inr out \<Longrightarrow>
   fst (GetRemote E s) =
     Inr (if ''origin'' \<in> set (Split out [CHR 0x0A]) then ''origin'' else hd (Split out [CHR 0x0A]))"
  by (auto simp: GetRemote_def Let_def Split_nonempty split: prod.splits sum.splits)

section \<open>Lemmas on the console\<close>

lemma emit_simps [simp]:
  "trace (emit e s) = trace s @ [e]" "stdin (emit e s) = stdin s" "world (emit e s) = world s"
  by (simp_all add: emit_def)

lemma Println_simps [simp]:
  "trace (Println m s) = trace s @ [Print m]" "stdin (Println m s) = stdin s"
  "world (Println m s) = world s"
  by (simp_all add: Println_def)

lemma editLoop_stuck:
  assumes ret: "editLoop lines s = Some y"
  shows "\<not> (lines = [] \<and> stdin s = [])"
proof (rule editLoop.raw_induct
    [where P = "\<lambda>l t r. \<not> (l = [] \<and> stdin t = [])", OF _ ret], goal_cases)
  case (1 f l t r)
  show ?case
  proof
    assume a: "l = [] \<and> stdin t = []"
    then have "ReadString t = ([], emit (ReadLine []) (t\<lparr>stdin := []\<rparr>))"
      by (simp add: ReadString_def)
    with a "1"(2) have "f [] (emit (ReadLine []) (t\<lparr>stdin := []\<rparr>)) = Some r"
      by (simp add: TrimRight_def)
    from "1"(1) [OF this] show False by simp
  qed
qed

lemma editLoop_eof: "stdin s = [] \<Longrightarrow> editLoop [] s = None"
  using editLoop_stuck [of "[]" s] by (cases "editLoop [] s") auto

section \<open>Frame lemmas: what each operation adds to the trace\<close>

lemma grows_iff: "grows A s s' \<longleftrightarrow> (\<exists>evs. trace s' = trace s @ evs \<and> list_all A evs)"
proof
  assume g: "grows A s s'"
  then have "trace s' = trace s @ newEvents s s'"
    unfolding grows_def newEvents_def by (metis append_take_drop_id)
  with g show "\<exists>evs. trace s' = trace s @ evs \<and> list_all A evs"
    unfolding grows_def by blast
next
  assume "\<exists>evs. trace s' = trace s @ evs \<and> list_all A evs"
  then show "grows A s s'"
    by (auto simp: grows_def newEvents_def)
qed

lemma grows_refl [simp]: "grows A s s"
  by (simp add: grows_iff)

lemma grows_trans: "grows A s s1 \<Longrightarrow> grows A s1 s2 \<Longrightarrow> grows A s s2"
  by (auto simp: grows_iff)

lemma grows_mono: "grows A s s' \<Longrightarrow> (\<And>e. A e \<Longrightarrow> B e) \<Longrightarrow> grows B s s'"
  by (auto simp: grows_iff list_all_iff)


lemma grows_Println [simp]: "grows A s (Println m s) = A (Print m)"
  by (auto simp: grows_iff)

lemma runD:
  "run E args s = (r, s') \<Longrightarrow> trace s' = trace s @ [Git args r] \<and> stdin s' = stdin s"
  by (auto simp: run_def Let_def split: prod.splits sum.splits)

lemma isQuery_Git [simp]:
  "isQuery (Git args r) = (take 1 args \<noteq> [''add''] \<and> take 1 args \<noteq> [''commit''] \<and> take 1 args \<noteq> [''push''])"
  by (simp add: isQuery_def isGit_def isMutation_def)

lemma GetCurrentBranchD:
  "GetCurrentBranch E s = (r, s') \<Longrightarrow> grows isQuery s s' \<and> stdin s' = stdin s"
  by (auto simp: GetCurrentBranch_def grows_iff dest!: runD)

lemma GetRemoteD:
  "GetRemote E s = (r, s') \<Longrightarrow> grows isQuery s s' \<and> stdin s' = stdin s"
  by (auto simp: GetRemote_def grows_iff Let_def dest!: runD split: prod.splits sum.splits if_splits)

lemma IsRepoD:
  "IsRepo E s = (r, s') \<Longrightarrow> grows isQuery s s' \<and> stdin s' = stdin s"
  by (auto simp: IsRepo_def grows_iff Let_def dest!: runD split: prod.splits sum.splits if_splits)

lemma GetStagedDiffD:
  "GetStagedDiff E s = (r, s') \<Longrightarrow> grows isQuery s s' \<and> stdin s' = stdin s"
  by (auto simp: GetStagedDiff_def grows_iff dest!: runD)

lemma GetAllDiffD:
  "GetAllDiff E s = (r, s') \<Longrightarrow> grows isQuery s s' \<and> stdin s' = stdin s"
  by (auto simp: GetAllDiff_def grows_iff dest!: runD)

lemma HasStagedChangesD:
  "HasStagedChanges E s = (r, s') \<Longrightarrow> grows isQuery s s' \<and> stdin s' = stdin s"
  by (auto simp: HasStagedChanges_def grows_iff dest!: runD split: prod.splits sum.splits)

lemma HasUnstagedChangesD:
  "HasUnstagedChanges E s = (r, s') \<Longrightarrow> grows isQuery s s' \<and> stdin s' = stdin s"
  by (auto simp: HasUnstagedChanges_def grows_iff dest!: runD split: prod.splits sum.splits)

lemma GetChangedFilesD:
  "GetChangedFiles E s = (r, s') \<Longrightarrow> grows isQuery s s' \<and> stdin s' = stdin s"
  by (auto simp: GetChangedFiles_def grows_iff dest!: runD split: prod.splits sum.splits if_splits)

lemma GetUnpushedDiffD:
  "GetUnpushedDiff E s = (r, s') \<Longrightarrow> grows isQuery s s' \<and> stdin s' = stdin s"
  by (auto simp: GetUnpushedDiff_def GetCurrentBranch_def grows_iff dest!: runD split: prod.splits sum.splits if_splits)

lemma GetUnpushedCommitMessagesD:
  "GetUnpushedCommitMessages E s = (r, s') \<Longrightarrow> grows isQuery s s' \<and> stdin s' = stdin s"
  by (auto simp: GetUnpushedCommitMessages_def GetCurrentBranch_def grows_iff dest!: runD split: prod.splits sum.splits if_splits)

lemma IsFirstPushToBranchD:
  "IsFirstPushToBranch E s = (r, s') \<Longrightarrow> grows isQuery s s' \<and> stdin s' = stdin s"
  by (auto simp: IsFirstPushToBranch_def GetCurrentBranch_def grows_iff dest!: runD split: prod.splits sum.splits if_splits)

lemma IsMainBranchD:
  "IsMainBranch E s = (r, s') \<Longrightarrow> grows isQuery s s' \<and> stdin s' = stdin s"
  by (auto simp: IsMainBranch_def GetCurrentBranch_def grows_iff dest!: runD split: prod.splits sum.splits if_splits)

lemma PushD:
  "Push E s = (r, s') \<Longrightarrow> grows isGit s s' \<and> stdin s' = stdin s"
  by (auto simp: Push_def GetRemote_def GetCurrentBranch_def grows_iff isGit_def Let_def dest!: runD split: prod.splits sum.splits if_splits)

lemma PushSetUpstreamD:
  "PushSetUpstream E s = (r, s') \<Longrightarrow> grows isGit s s' \<and> stdin s' = stdin s"
  by (auto simp: PushSetUpstream_def GetRemote_def GetCurrentBranch_def grows_iff isGit_def Let_def dest!: runD split: prod.splits sum.splits if_splits)

lemma newEvents_append: "trace s' = trace s @ evs \<Longrightarrow> newEvents s s' = evs"
  by (simp add: newEvents_def)

lemma grows_newEvents: "grows A s s' \<Longrightarrow> trace s' = trace s @ newEvents s s' \<and> list_all A (newEvents s s')"
  by (auto simp: grows_iff newEvents_def)






lemma ticketCalls_Println [simp]: "ticketCalls (Println m s) = ticketCalls s"
  by (simp add: ticketCalls_def isTicketCall_def)


lemma grows_query_pushPhase: "grows isQuery s s' \<Longrightarrow> grows pushPhase s s'"
  by (erule grows_mono) (simp add: pushPhase_def isQuery_def)

lemma grows_git_pushPhase: "grows isGit s s' \<Longrightarrow> grows pushPhase s s'"
  by (erule grows_mono) (simp add: pushPhase_def)

lemma newEvents_trans:
  "grows A s s1 \<Longrightarrow> grows B s1 s2 \<Longrightarrow> newEvents s s2 = newEvents s s1 @ newEvents s1 s2"
  by (auto simp: grows_iff newEvents_def)

lemma pushAndTicket_shape:
  assumes "pushAndTicket E cfg message s = (r, s')"
  shows "\<exists>sx. grows pushPhase s sx \<and>
           ((\<exists>err. r = Some err \<and> s' = sx) \<or> (\<exists>fp mb. createTicket E cfg message fp mb sx = (r, s')))"
proof -
  obtain fp s1 where a: "IsFirstPushToBranch E s = (fp, s1)" by fastforce
  obtain mb s2 where b: "IsMainBranch E s1 = (mb, s2)" by fastforce
  obtain p1 s3 where c: "Push E (Println ''Pushing to remote...'' s2) = (p1, s3)" by fastforce
  obtain p2 s4 where d: "PushSetUpstream E s3 = (p2, s4)" by fastforce
  have g1: "grows pushPhase s s1"
    using IsFirstPushToBranchD [OF a] by (simp add: grows_query_pushPhase)
  have g2: "grows pushPhase s1 s2"
    using IsMainBranchD [OF b] by (simp add: grows_query_pushPhase)
  have g2': "grows pushPhase s2 (Println ''Pushing to remote...'' s2)"
    by (simp add: pushPhase_def)
  have g3: "grows pushPhase (Println ''Pushing to remote...'' s2) s3"
    using PushD [OF c] by (simp add: grows_git_pushPhase)
  have g4: "grows pushPhase s3 s4"
    using PushSetUpstreamD [OF d] by (simp add: grows_git_pushPhase)
  have gs3: "grows pushPhase s s3"
    using g1 g2 g2' g3 by (blast intro: grows_trans)
  have gs4: "grows pushPhase s s4"
    using gs3 g4 by (blast intro: grows_trans)
  show ?thesis
  proof (cases p1)
    case None
    with assms a b c have "createTicket E cfg message (case fp of Inl err \<Rightarrow> False | Inr b \<Rightarrow> b) mb s3 = (r, s')"
      by (simp add: pushAndTicket_def)
    with gs3 show ?thesis by blast
  next
    case (Some e1)
    show ?thesis
    proof (cases p2)
      case None
      with Some assms a b c d have "createTicket E cfg message (case fp of Inl err \<Rightarrow> False | Inr b \<Rightarrow> b) mb s4 = (r, s')"
        by (simp add: pushAndTicket_def)
      with gs4 show ?thesis by blast
    next
      case (Some e2)
      with \<open>p1 = Some e1\<close> assms a b c d have "r = Some (''failed to push: '' @ e2) \<and> s' = s4"
        by (simp add: pushAndTicket_def)
      with gs4 show ?thesis by blast
    qed
  qed
qed

lemma createTicket_events:
  assumes "createTicket E cfg msg fp mb s = (r, s')"
  shows "r = None \<and> grows (\<lambda>e. \<not> isGit e) s s'
     \<and> (JiraCreate m (Inl e) \<in> set (newEvents s s') \<longrightarrow>
          Print (''Warning: Failed to create Jira ticket: failed to create issue: '' @ e) \<in> set (newEvents s s'))
     \<and> (JiraTransition k (Some e') \<in> set (newEvents s s') \<longrightarrow>
          Print (''Warning: Could not transition to In Progress: '' @ e') \<in> set (newEvents s s'))"
  using assms
  by (auto simp: createTicket_def CreateIssueWithTitle_def grows_iff newEvents_def isGit_def Let_def
      split: prod.splits sum.splits option.splits if_splits)

lemma pushPhase_no_jira:
  "grows pushPhase s sx \<Longrightarrow>
   JiraCreate m x \<notin> set (newEvents s sx) \<and> JiraTransition k y \<notin> set (newEvents s sx)"
proof -
  assume "grows pushPhase s sx"
  then have "\<forall>ev \<in> set (newEvents s sx). pushPhase ev"
    using grows_newEvents [of pushPhase s sx] by (simp add: list_all_iff)
  moreover have "\<not> pushPhase (JiraCreate m x)" "\<not> pushPhase (JiraTransition k y)"
    by (simp_all add: pushPhase_def isGit_def)
  ultimately show ?thesis by blast
qed





section \<open>The edit loop and the confirmation block\<close>

lemma splitLine_append: "splitLine s = (l, r) \<Longrightarrow> l @ r = s"
  by (induction s arbitrary: l r) (auto split: if_splits prod.splits)

lemma TrimRight_all: "set raw \<subseteq> set cs \<Longrightarrow> TrimRight raw cs = []"
  by (auto simp: TrimRight_def dropWhile_eq_Nil_conv)

lemma editLoop_blank:
  assumes ret: "editLoop lines s = Some y"
  shows "\<not> (lines = [] \<and> set (stdin s) \<subseteq> {CHR 0x0A, CHR 0x0D})"
proof (rule editLoop.raw_induct
    [where P = "\<lambda>l t r. \<not> (l = [] \<and> set (stdin t) \<subseteq> {CHR 0x0A, CHR 0x0D})", OF _ ret], goal_cases)
  case (1 f l t r)
  show ?case
  proof
    assume a: "l = [] \<and> set (stdin t) \<subseteq> {CHR 0x0A, CHR 0x0D}"
    obtain raw rest where sp: "splitLine (stdin t) = (raw, rest)" by fastforce
    from splitLine_append [OF sp] have "set (stdin t) = set raw \<union> set rest"
      by (metis set_append)
    with a
    have sub: "set raw \<subseteq> {CHR 0x0A, CHR 0x0D}" "set rest \<subseteq> {CHR 0x0A, CHR 0x0D}" by auto
    from sub(1) have tr: "TrimRight raw [CHR 0x0A, CHR 0x0D] = []"
      by (intro TrimRight_all) auto
    from sp have "ReadString t = (raw, emit (ReadLine raw) (t\<lparr>stdin := rest\<rparr>))"
      by (simp add: ReadString_def)
    with a tr "1"(2) have "f [] (emit (ReadLine raw) (t\<lparr>stdin := rest\<rparr>)) = Some r"
      by simp
    from "1"(1) [OF this] sub(2) show False by simp
  qed
qed

lemma confirmMessage_edit_blank:
  assumes "classifyInput (fst (splitLine (stdin s))) = Edit"
    and "set (snd (splitLine (stdin s))) \<subseteq> {CHR 0x0A, CHR 0x0D}"
  shows "confirmMessage False m s = None"
proof -
  obtain raw rest where sp: "splitLine (stdin s) = (raw, rest)" by fastforce
  let ?s1 = "Println ''Enter your commit message (press Enter twice to finish):''
       (emit (ReadLine raw) (Println ''Proceed with this message? [Y/n/e(dit)]: '' s\<lparr>stdin := rest\<rparr>))"
  have "editLoop [] ?s1 = None"
    using editLoop_blank [of "[]" ?s1] assms(2) sp by (cases "editLoop [] ?s1") auto
  with assms(1) sp show ?thesis
    by (simp add: confirmMessage_def ReadString_def)
qed


lemma splitLine_line: "CHR 0x0A \<notin> set l \<Longrightarrow> splitLine (l @ CHR 0x0A # rest) = (l @ [CHR 0x0A], rest)"
  by (induction l) auto

lemma TrimRight_line:
  "l \<noteq> [] \<Longrightarrow> last l \<noteq> CHR 0x0A \<Longrightarrow> last l \<noteq> CHR 0x0D \<Longrightarrow>
   TrimRight (l @ [CHR 0x0A]) [CHR 0x0A, CHR 0x0D] = l"
  by (cases l rule: rev_cases) (auto simp: TrimRight_def)

lemma editLoop_collects:
  assumes "\<forall>l \<in> set ls. l \<noteq> [] \<and> CHR 0x0A \<notin> set l \<and> last l \<noteq> CHR 0x0D"
    and "acc @ ls \<noteq> []"
    and "stdin s = concat (map (\<lambda>l. l @ [CHR 0x0A]) ls) @ CHR 0x0A # rest"
  shows "\<exists>s'. editLoop acc s = Some (acc @ ls, s') \<and> stdin s' = rest \<and> world s' = world s"
  using assms
proof (induction ls arbitrary: acc s)
  case Nil
  then have "splitLine (stdin s) = ([CHR 0x0A], rest)" by simp
  with Nil show ?case
    by (subst editLoop.simps) (simp add: ReadString_def TrimRight_def)
next
  case (Cons l ls)
  from Cons.prems(1) have l: "l \<noteq> []" "CHR 0x0A \<notin> set l" "last l \<noteq> CHR 0x0D" by auto
  then have l2: "last l \<noteq> CHR 0x0A" by (metis last_in_set)
  let ?rest = "concat (map (\<lambda>l. l @ [CHR 0x0A]) ls) @ CHR 0x0A # rest"
  from Cons.prems(3) have "stdin s = l @ CHR 0x0A # ?rest" by simp
  then have sp: "splitLine (stdin s) = (l @ [CHR 0x0A], ?rest)"
    using splitLine_line [OF l(2)] by simp
  let ?s1 = "emit (ReadLine (l @ [CHR 0x0A])) (s\<lparr>stdin := ?rest\<rparr>)"
  have step: "editLoop acc s = editLoop (acc @ [l]) ?s1"
    using sp l TrimRight_line [OF l(1) l2 l(3)]
    by (subst editLoop.simps) (simp add: ReadString_def)
  have "\<exists>s'. editLoop (acc @ [l]) ?s1 = Some ((acc @ [l]) @ ls, s') \<and> stdin s' = rest \<and> world s' = world ?s1"
    using Cons.prems(1) by (intro Cons.IH) simp_all
  with step show ?case by simp
qed

lemma confirmation_class_pad:
  "list_all isSpace l \<Longrightarrow> list_all isSpace r \<Longrightarrow> classifyInput (l @ a @ r) = classifyInput a"
proof -
  assume l: "list_all isSpace l" and r: "list_all isSpace r"
  have "TrimSpace (ToLower (l @ a @ r)) = TrimSpace (ToLower a)"
    using l r TrimSpace_pad [of "ToLower l" "ToLower r" "ToLower a"]
    by (simp add: allSpace_ToLower) (simp add: ToLower_def)
  then show ?thesis by (simp add: classifyInput_def)
qed

lemma edit_replaces_message:
  assumes "ls \<noteq> []"
    and "\<forall>l \<in> set ls. l \<noteq> [] \<and> CHR 0x0A \<notin> set l \<and> last l \<noteq> CHR 0x0D"
    and "classifyInput answer = Edit" and "CHR 0x0A \<notin> set answer"
    and "stdin s = answer @ CHR 0x0A # concat (map (\<lambda>l. l @ [CHR 0x0A]) ls) @ CHR 0x0A # rest"
  shows "\<exists>s'. confirmMessage False proposal s = Some (Some (Join ls [CHR 0x0A]), s') \<and> stdin s' = rest"
proof -
  let ?rest = "concat (map (\<lambda>l. l @ [CHR 0x0A]) ls) @ CHR 0x0A # rest"
  have sp: "splitLine (stdin s) = (answer @ [CHR 0x0A], ?rest)"
    using assms(5) splitLine_line [OF assms(4)] by simp
  have cl: "classifyInput (answer @ [CHR 0x0A]) = Edit"
    using confirmation_class_pad [of "[]" "[CHR 0x0A]" answer] assms(3) by (simp add: isSpace_def)
  let ?s1 = "Println ''Enter your commit message (press Enter twice to finish):''
       (emit (ReadLine (answer @ [CHR 0x0A]))
          (Println ''Proceed with this message? [Y/n/e(dit)]: '' s\<lparr>stdin := ?rest\<rparr>))"
  from editLoop_collects [of ls "[]" ?s1 rest] assms(1,2)
  obtain s' where "editLoop [] ?s1 = Some (ls, s')" "stdin s' = rest" by auto
  with sp cl assms(1) show ?thesis
    by (simp add: confirmMessage_def ReadString_def)
qed

section \<open>Frame lemmas for the steps before the push\<close>

lemma grows_PrintlnI: "grows A s1 s2 \<Longrightarrow> A (Print m) \<Longrightarrow> grows A s1 (Println m s2)"
  by (auto simp: grows_iff)

lemma preConfirm_Print [simp]: "preConfirm (Print m)"
  by (simp add: preConfirm_def isPrint_def)

lemma grows_query_preConfirm: "grows isQuery s s' \<Longrightarrow> grows preConfirm s s'"
  by (erule grows_mono) (simp add: preConfirm_def)

lemma StageAllD:
  "StageAll E s = (r, s') \<Longrightarrow> grows isStageCmd s s' \<and> stdin s' = stdin s"
  by (auto simp: StageAll_def grows_iff isStageCmd_def dest!: runD split: prod.splits sum.splits)

lemma CommitD:
  "Commit E m s = (r, s') \<Longrightarrow> grows isMutation s s' \<and> stdin s' = stdin s"
  by (auto simp: Commit_def grows_iff isMutation_def dest!: runD split: prod.splits sum.splits)

lemma GenerateCommitMessageD:
  "GenerateCommitMessage E p d fs s = (r, s') \<Longrightarrow> grows preConfirm s s' \<and> stdin s' = stdin s"
  by (auto simp: GenerateCommitMessage_def grows_iff preConfirm_def isGeneratorCall_def Let_def
      split: prod.splits if_splits)

lemma selectDiffD:
  assumes "selectDiff E s = (r, s')"
  shows "grows preConfirm s s' \<and> stdin s' = stdin s"
proof -
  obtain h s1 where a: "HasStagedChanges E s = (h, s1)" by fastforce
  note A = HasStagedChangesD [OF a]
  show ?thesis
  proof (cases h)
    case (Inl err)
    with assms a A show ?thesis by (auto simp: selectDiff_def grows_query_preConfirm)
  next
    case (Inr hasStaged)
    show ?thesis
    proof (cases hasStaged)
      case True
      obtain d s2 where b: "GetStagedDiff E s1 = (d, s2)" by fastforce
      from GetStagedDiffD [OF b] A have "grows isQuery s s2" "stdin s2 = stdin s"
        by (auto intro: grows_trans)
      with assms a b Inr True show ?thesis
        by (cases d) (auto simp: selectDiff_def grows_query_preConfirm intro!: grows_PrintlnI)
    next
      case False
      obtain d s2 where b: "GetUnpushedDiff E s1 = (d, s2)" by fastforce
      obtain d' s3 where c: "GetAllDiff E s2 = (d', s3)" by fastforce
      obtain u s4 where e: "HasUnstagedChanges E s2 = (u, s4)" by fastforce
      obtain u' s5 where f: "HasUnstagedChanges E s3 = (u', s5)" by fastforce
      from GetUnpushedDiffD [OF b] A have g2: "grows isQuery s s2" "stdin s2 = stdin s"
        by (auto intro: grows_trans)
      from GetAllDiffD [OF c] g2 have g3: "grows isQuery s s3" "stdin s3 = stdin s"
        by (auto intro: grows_trans)
      from HasUnstagedChangesD [OF e] g2 have g4: "grows isQuery s s4" "stdin s4 = stdin s"
        by (auto intro: grows_trans)
      from HasUnstagedChangesD [OF f] g3 have g5: "grows isQuery s s5" "stdin s5 = stdin s"
        by (auto intro: grows_trans)
      from assms a b c e f Inr False g2 g3 g4 g5 show ?thesis
        by (auto simp: selectDiff_def grows_query_preConfirm intro!: grows_PrintlnI
            split: sum.splits if_splits)
    qed
  qed
qed

lemma grows_preConfirm_answering: "grows preConfirm s s' \<Longrightarrow> grows answering s s'"
  by (erule grows_mono) (simp add: answering_def)

lemma answering_Print [simp]: "answering (Print m)"
  by (simp add: answering_def)

lemma preConfirm_no_ReadLine:
  "grows preConfirm s s' \<Longrightarrow> filter isReadLine (newEvents s s') = []"
proof -
  assume "grows preConfirm s s'"
  then have "\<forall>e \<in> set (newEvents s s'). preConfirm e"
    using grows_newEvents [of preConfirm s s'] by (simp add: list_all_iff)
  moreover have "\<And>e. preConfirm e \<Longrightarrow> \<not> isReadLine e"
    by (case_tac e) (auto simp: preConfirm_def isReadLine_def isQuery_def isGit_def isPrint_def isGeneratorCall_def)
  ultimately show ?thesis by (auto simp: filter_empty_conv)
qed

lemma confirmMessage_reject:
  assumes "classifyInput (fst (splitLine (stdin s))) = Reject
         \<or> classifyInput (fst (splitLine (stdin s))) = Invalid"
  shows "\<exists>s'. confirmMessage False m s = Some (None, s') \<and> grows answering s s'"
proof -
  obtain raw rest where sp: "splitLine (stdin s) = (raw, rest)" by fastforce
  with assms show ?thesis
    by (auto simp: confirmMessage_def ReadString_def grows_iff answering_def preConfirm_def
        isPrint_def isReadLine_def)
qed

lemma generateAndPush_reject:
  assumes na: "\<not> autoConfirm cfg"
    and ans: "classifyInput (fst (splitLine (stdin s))) = Reject
         \<or> classifyInput (fst (splitLine (stdin s))) = Invalid"
  shows "\<exists>r s'. generateAndPush E cfg diff nc s = Some (r, s') \<and> grows answering s s'
           \<and> (filter isReadLine (newEvents s s') = [] \<or> r = None)"
proof -
  obtain cf s1 where a: "GetChangedFiles E s = (cf, s1)" by fastforce
  from GetChangedFilesD [OF a] have g1: "grows preConfirm s s1" and i1: "stdin s1 = stdin s"
    by (simp_all add: grows_query_preConfirm)
  let ?files = "case cf of Inl err \<Rightarrow> [] | Inr fs \<Rightarrow> fs"
  show ?thesis
  proof (cases "diff = []")
    case True
    with a have "generateAndPush E cfg diff nc s = Some (Some ''no changes detected'', s1)"
      by (simp add: generateAndPush_def)
    with g1 show ?thesis
      by (auto simp: preConfirm_no_ReadLine grows_preConfirm_answering)
  next
    case False
    obtain g s2 where b: "GenerateCommitMessage E (resolveProvider cfg) diff ?files
        (Println ''Generating commit message...'' s1) = (g, s2)" by fastforce
    have "grows preConfirm s (Println ''Generating commit message...'' s1)"
      using g1 by (rule grows_PrintlnI) simp
    with GenerateCommitMessageD [OF b] i1
    have g2: "grows preConfirm s s2" and i2: "stdin s2 = stdin s"
      by (auto intro: grows_trans)
    show ?thesis
    proof (cases g)
      case (Inl err)
      with a b False have "generateAndPush E cfg diff nc s
          = Some (Some (''failed to generate commit message: '' @ err), s2)"
        by (simp add: generateAndPush_def)
      with g2 show ?thesis
        by (auto simp: preConfirm_no_ReadLine grows_preConfirm_answering)
    next
      case (Inr generated)
      have g3: "grows preConfirm s (showProposal generated s2)"
        unfolding showProposal_def using g2 by (intro grows_PrintlnI) simp_all
      have i3: "stdin (showProposal generated s2) = stdin s"
        by (simp add: showProposal_def i2)
      from confirmMessage_reject [of "showProposal generated s2" generated] ans i3
      obtain s3 where c: "confirmMessage False generated (showProposal generated s2) = Some (None, s3)"
        and g4: "grows answering (showProposal generated s2) s3" by auto
      from a b c False Inr na have "generateAndPush E cfg diff nc s = Some (None, s3)"
        by (simp add: generateAndPush_def)
      moreover have "grows answering s s3"
        using g3 g4 by (blast intro: grows_trans grows_preConfirm_answering)
      ultimately show ?thesis by simp
    qed
  qed
qed

lemma grows_answering_staging: "grows answering s s' \<Longrightarrow> grows (staging all) s s'"
  by (erule grows_mono) (simp add: staging_def)

lemma grows_query_staging: "grows isQuery s s' \<Longrightarrow> grows (staging all) s s'"
  by (erule grows_mono) (simp add: staging_def answering_def preConfirm_def)

lemma grows_stage_staging: "grows isStageCmd s s' \<Longrightarrow> grows (staging True) s s'"
  by (erule grows_mono) (simp add: staging_def)

lemma staging_Print [simp]: "staging all (Print m)"
  by (simp add: staging_def)

lemma answering_not_mutation: "answering e \<Longrightarrow> \<not> isMutation e \<and> \<not> isTicketCall e"
  by (cases e) (auto simp: answering_def preConfirm_def isReadLine_def isQuery_def isGit_def
      isPrint_def isGeneratorCall_def isMutation_def isTicketCall_def)

lemma isStageCmd_mutation: "isStageCmd e \<Longrightarrow> isMutation e \<and> \<not> isTicketCall e \<and> \<not> isReadLine e"
  by (cases e) (auto simp: isStageCmd_def isMutation_def isTicketCall_def isReadLine_def)

lemma staging_mutation: "staging all e \<Longrightarrow> isMutation e = isStageCmd e"
  using answering_not_mutation [of e] isStageCmd_mutation [of e]
  by (auto simp: staging_def)

lemma staging_ReadLine: "staging all e \<Longrightarrow> isReadLine e \<Longrightarrow> answering e"
  using isStageCmd_mutation [of e] by (auto simp: staging_def)

lemma prelude_Print [simp]: "prelude all (Print m)"
  by (simp add: prelude_def)

lemma grows_preConfirm_prelude: "grows preConfirm s s' \<Longrightarrow> grows (prelude all) s s'"
  by (erule grows_mono) (simp add: prelude_def)

lemma grows_query_prelude: "grows isQuery s s' \<Longrightarrow> grows (prelude all) s s'"
  by (erule grows_mono) (simp add: prelude_def preConfirm_def)

lemma grows_stage_prelude: "grows isStageCmd s s' \<Longrightarrow> grows (prelude True) s s'"
  by (erule grows_mono) (simp add: prelude_def)

lemma grows_prelude_staging: "grows (prelude all) s s' \<Longrightarrow> grows (staging all) s s'"
  by (erule grows_mono) (auto simp: prelude_def staging_def answering_def)

lemma prelude_no_ReadLine:
  "grows (prelude all) s s' \<Longrightarrow> filter isReadLine (newEvents s s') = []"
proof -
  assume "grows (prelude all) s s'"
  then have "\<forall>e \<in> set (newEvents s s'). prelude all e"
    using grows_newEvents [of "prelude all" s s'] by (simp add: list_all_iff)
  moreover have "\<And>e. prelude all e \<Longrightarrow> \<not> isReadLine e"
    by (case_tac e) (auto simp: prelude_def preConfirm_def isReadLine_def isQuery_def isGit_def
        isPrint_def isGeneratorCall_def isStageCmd_def)
  ultimately show ?thesis by (auto simp: filter_empty_conv)
qed

lemma runPushx_reject:
  assumes na: "\<not> autoConfirm cfg"
    and ans: "classifyInput (fst (splitLine (stdin s))) = Reject
         \<or> classifyInput (fst (splitLine (stdin s))) = Invalid"
  shows "\<exists>r s'. runPushx E cfg s = Some (r, s') \<and> grows (staging (stageAll cfg)) s s'
           \<and> (filter isReadLine (newEvents s s') = [] \<or> r = None)"
proof (cases "resolveApiKey cfg = []")
  case True
  then have "runPushx E cfg s = Some (Some apiKeyHelp, s)" by (simp add: runPushx_def)
  then show ?thesis by (simp add: newEvents_def)
next
  case key: False
  let ?all = "stageAll cfg"
  obtain ok s1 where a: "IsRepo E s = (ok, s1)" by fastforce
  from IsRepoD [OF a] have g1: "grows (prelude ?all) s s1" and i1: "stdin s1 = stdin s"
    by (simp_all add: grows_query_prelude)
  show ?thesis
  proof (cases ok)
    case False
    with a key have "runPushx E cfg s = Some (Some ''not a git repository'', s1)"
      by (simp add: runPushx_def)
    with g1 show ?thesis by (simp add: prelude_no_ReadLine grows_prelude_staging)
  next
    case True
    let ?s1 = "Println ''Analyzing your changes...'' s1"
    have g1': "grows (prelude ?all) s ?s1"
      using g1 by (rule grows_PrintlnI) simp
    obtain st s2 where b: "(if stageAll cfg then StageAll E (Println ''Staging all changes...'' ?s1)
                            else (None, ?s1)) = (st, s2)" by fastforce
    have g2: "grows (prelude ?all) s s2 \<and> stdin s2 = stdin s"
    proof (cases "stageAll cfg")
      case False
      with b have "s2 = ?s1" by simp
      with g1' i1 show ?thesis by simp
    next
      case all: True
      with b have sa: "StageAll E (Println ''Staging all changes...'' ?s1) = (st, s2)" by simp
      have "grows (prelude ?all) s (Println ''Staging all changes...'' ?s1)"
        using g1' by (rule grows_PrintlnI) simp
      moreover from StageAllD [OF sa]
      have "grows (prelude ?all) (Println ''Staging all changes...'' ?s1) s2"
        using all by (simp add: grows_stage_prelude)
      ultimately have "grows (prelude ?all) s s2" by (rule grows_trans)
      with StageAllD [OF sa] i1 show ?thesis by simp
    qed
    note g2a = g2 [THEN conjunct1] and g2b = g2 [THEN conjunct2]
    show ?thesis
    proof (cases st)
      case (Some err)
      with a b key True have "runPushx E cfg s = Some (Some (''failed to stage changes: '' @ err), s2)"
        by (simp add: runPushx_def)
      with g2a show ?thesis by (simp add: prelude_no_ReadLine grows_prelude_staging)
    next
      case None
      obtain sd s3 where c: "selectDiff E s2 = (sd, s3)" by fastforce
      from selectDiffD [OF c] g2a g2b have g3: "grows (prelude ?all) s s3" and i3: "stdin s3 = stdin s"
        by (auto intro: grows_trans grows_preConfirm_prelude)
      show ?thesis
      proof (cases sd)
        case (Inl err)
        with a b c key True None have "runPushx E cfg s = Some (Some err, s3)"
          by (simp add: runPushx_def)
        with g3 show ?thesis by (simp add: prelude_no_ReadLine grows_prelude_staging)
      next
        case (Inr dn)
        obtain diff nc where dn: "dn = (diff, nc)" by (cases dn)
        from generateAndPush_reject [OF na, of s3 E diff nc] ans i3
        obtain r s' where d: "generateAndPush E cfg diff nc s3 = Some (r, s')"
          and g4: "grows answering s3 s'"
          and rd: "filter isReadLine (newEvents s3 s') = [] \<or> r = None" by auto
        from a b c d key True None Inr dn have res: "runPushx E cfg s = Some (r, s')"
          by (simp add: runPushx_def)
        have g: "grows (staging ?all) s s'"
          using g3 g4 by (blast intro: grows_trans grows_prelude_staging grows_answering_staging)
        have "newEvents s s' = newEvents s s3 @ newEvents s3 s'"
          by (rule newEvents_trans [OF g3 g4])
        with rd have "filter isReadLine (newEvents s s') = [] \<or> r = None"
          using prelude_no_ReadLine [OF g3] by auto
        with res g show ?thesis by simp
      qed
    qed
  qed
qed

lemma staging_views:
  assumes g: "grows (staging all) s s'"
  shows "mutations s' = mutations s @ filter isStageCmd (newEvents s s')
       \<and> (all \<or> mutations s' = mutations s)
       \<and> ticketCalls s' = ticketCalls s"
proof -
  from grows_newEvents [OF g] have tr: "trace s' = trace s @ newEvents s s'"
    and all: "\<forall>e \<in> set (newEvents s s'). staging all e"
    by (simp_all add: list_all_iff)
  have m: "filter isMutation (newEvents s s') = filter isStageCmd (newEvents s s')"
  proof (rule filter_cong [OF refl])
    fix e assume "e \<in> set (newEvents s s')"
    with all have "staging all e" by blast
    then show "isMutation e = isStageCmd e" by (rule staging_mutation)
  qed
  have t: "filter isTicketCall (newEvents s s') = []"
    using all answering_not_mutation isStageCmd_mutation
    by (auto simp: filter_empty_conv staging_def)
  have n: "\<not> all \<Longrightarrow> filter isStageCmd (newEvents s s') = []"
    using all answering_not_mutation isStageCmd_mutation
    by (auto simp: filter_empty_conv staging_def)
  have "mutations s' = mutations s @ filter isStageCmd (newEvents s s')"
    unfolding mutations_def by (subst tr) (simp add: m)
  moreover have "ticketCalls s' = ticketCalls s"
    unfolding ticketCalls_def by (subst tr) (simp add: t)
  ultimately show ?thesis using n by auto
qed


section \<open>The push-only path of \<open>runPush\<close>\<close>

lemma Cut_first:
  "CHR '' '' \<notin> set h \<Longrightarrow>
   Cut (h @ CHR '' '' # CHR ''-'' # CHR '' '' # rest) '' - '' = Some (h, rest)"
  by (induction h) auto

lemma SplitN2_subject:
  "CHR '' '' \<notin> set h \<Longrightarrow> SplitN2 (h @ '' - '' @ subject) '' - '' = [h, subject]"
  by (simp add: SplitN2_def Cut_first)

lemma url_is_no_prompt:
  "a @ CHR ''/'' # CHR ''b'' # rest \<noteq> ''Proceed with this message? [Y/n/e(dit)]: ''"
proof
  assume "a @ CHR ''/'' # CHR ''b'' # rest = ''Proceed with this message? [Y/n/e(dit)]: ''"
  then have "set (a @ CHR ''/'' # CHR ''b'' # rest) = set ''Proceed with this message? [Y/n/e(dit)]: ''"
    by (rule arg_cong)
  moreover have "CHR ''b'' \<in> set (a @ CHR ''/'' # CHR ''b'' # rest)" by simp
  moreover have "CHR ''b'' \<notin> set ''Proceed with this message? [Y/n/e(dit)]: ''" by simp
  ultimately show False by blast
qed

lemma createTicket_quiet:
  "createTicket E cfg msg fp mb s = (r, s') \<Longrightarrow> grows quiet s s' \<and> stdin s' = stdin s"
  by (auto simp: createTicket_def CreateIssueWithTitle_def grows_iff quiet_def isReadLine_def
      isGeneratorCall_def GetIssueURL_def url_is_no_prompt Let_def
      split: prod.splits sum.splits option.splits if_splits)

lemma pushPhase_quiet: "pushPhase e \<Longrightarrow> quiet e"
  by (cases e) (auto simp: pushPhase_def quiet_def isGit_def isReadLine_def isGeneratorCall_def)

lemma fold_Println_trace:
  "trace (fold (\<lambda>m. Println (f m)) ms s) = trace s @ map (\<lambda>m. Print (f m)) ms
   \<and> stdin (fold (\<lambda>m. Println (f m)) ms s) = stdin s"
  by (induction ms arbitrary: s) simp_all

lemma showUnpushed_trace:
  "ms \<noteq> [] \<Longrightarrow>
   trace (showUnpushed ms s) =
     trace s @ Print (''Found '' @ Itoa (length ms) @ '' existing unpushed commit(s):'')
       # map (\<lambda>m. Print (''   * '' @ m)) ms @ [Print []]
   \<and> stdin (showUnpushed ms s) = stdin s"
  by (simp add: showUnpushed_def fold_Println_trace)

lemma pushAndTicket_quiet:
  assumes "pushAndTicket E cfg message s = (r, s')"
  shows "grows quiet s s' \<and> stdin s' = stdin s"
proof -
  obtain fp s1 where a: "IsFirstPushToBranch E s = (fp, s1)" by fastforce
  obtain mb s2 where b: "IsMainBranch E s1 = (mb, s2)" by fastforce
  obtain p1 s3 where c: "Push E (Println ''Pushing to remote...'' s2) = (p1, s3)" by fastforce
  obtain p2 s4 where d: "PushSetUpstream E s3 = (p2, s4)" by fastforce
  let ?fp = "case fp of Inl err \<Rightarrow> False | Inr b \<Rightarrow> b"
  have q: "\<And>x y. grows pushPhase x y \<Longrightarrow> grows quiet x y"
    by (erule grows_mono) (rule pushPhase_quiet)
  have g1: "grows quiet s s1" "stdin s1 = stdin s"
    using IsFirstPushToBranchD [OF a] by (simp_all add: q grows_query_pushPhase)
  have g2: "grows quiet s1 s2" "stdin s2 = stdin s1"
    using IsMainBranchD [OF b] by (simp_all add: q grows_query_pushPhase)
  have g2': "grows quiet s2 (Println ''Pushing to remote...'' s2)"
    by (simp add: quiet_def isReadLine_def isGeneratorCall_def)
  have g3: "grows quiet (Println ''Pushing to remote...'' s2) s3" "stdin s3 = stdin s2"
    using PushD [OF c] by (simp_all add: q grows_git_pushPhase)
  have g4: "grows quiet s3 s4" "stdin s4 = stdin s3"
    using PushSetUpstreamD [OF d] by (simp_all add: q grows_git_pushPhase)
  have gs3: "grows quiet s s3"
    using g1(1) g2(1) g2' g3(1) by (blast intro: grows_trans)
  have gs4: "grows quiet s s4"
    using gs3 g4(1) by (blast intro: grows_trans)
  have i3: "stdin s3 = stdin s" using g1 g2 g3 by simp
  have i4: "stdin s4 = stdin s" using i3 g4 by simp
  show ?thesis
  proof (cases p1)
    case None
    with assms a b c have "createTicket E cfg message ?fp mb s3 = (r, s')"
      by (simp add: pushAndTicket_def)
    from createTicket_quiet [OF this] gs3 i3 show ?thesis
      by (auto intro: grows_trans)
  next
    case (Some e1)
    show ?thesis
    proof (cases p2)
      case None
      with Some assms a b c d have "createTicket E cfg message ?fp mb s4 = (r, s')"
        by (simp add: pushAndTicket_def)
      from createTicket_quiet [OF this] gs4 i4 show ?thesis
        by (auto intro: grows_trans)
    next
      case (Some e2)
      with \<open>p1 = Some e1\<close> assms a b c d have "s' = s4"
        by (simp add: pushAndTicket_def)
      with gs4 i4 show ?thesis by simp
    qed
  qed
qed

lemma quiet_views:
  assumes "grows quiet s s'"
  shows "filter isReadLine (newEvents s s') = []
       \<and> filter isGeneratorCall (newEvents s s') = []
       \<and> Print ''Proceed with this message? [Y/n/e(dit)]: '' \<notin> set (newEvents s s')"
proof -
  from grows_newEvents [OF assms] have "\<forall>e \<in> set (newEvents s s'). quiet e"
    by (simp add: list_all_iff)
  then show ?thesis
    by (auto simp: filter_empty_conv quiet_def)
qed

lemma pushOnly_trace:
  assumes "ms \<noteq> []" and "hd ms = h @ '' - '' @ subject" and "CHR '' '' \<notin> set h"
  shows "(fst (pushOnly E cfg ms s) = Inl None \<or> fst (pushOnly E cfg ms s) = Inr subject)
       \<and> trace (snd (pushOnly E cfg ms s)) =
           trace s @ pushOnlyEvents (autoConfirm cfg) (fst (splitLine (stdin s)))
                       (fst (pushOnly E cfg ms s) = Inl None)"
proof -
  have sp: "SplitN2 (hd ms) '' - '' = [h, subject]"
    using assms(2,3) SplitN2_subject [of h subject] by simp
  obtain raw rest where rl: "splitLine (stdin s) = (raw, rest)" by fastforce
  show ?thesis
    using assms(1) sp rl
    by (simp add: pushOnly_def pushOnlyEvents_def ReadString_def Let_def)
qed

lemma no_ReadLine_in_listing [simp]:
  "filter isReadLine (map (\<lambda>m. Print (f m)) ms) = []"
  "filter isGeneratorCall (map (\<lambda>m. Print (f m)) ms) = []"
  by (induction ms) (simp_all add: isReadLine_def isGeneratorCall_def)

lemma drop_append_self: "drop (length xs) (xs @ ys) = ys"
  by simp

section \<open>Pushes and tracker calls happen only in the shared tail\<close>

text \<open>
  Whatever \<open>runPushx\<close> and \<open>runPush\<close> do, a run that returns has either executed no
  push command and made no call of the tracker at all, or it has done neither up to some
  state in which it entered \<open>pushAndTicket\<close>, whose result is the result of the run. So
  what is proved of \<open>pushAndTicket\<close> holds of every run of both orchestrators that
  reaches the push.
\<close>

lemma beforeTail_Print [simp]: "beforeTail (Print m)"
  by (simp add: beforeTail_def isPushCmd_def isTicketCall_def)

lemma answering_beforeTail: "answering e \<Longrightarrow> beforeTail e"
  by (cases e) (auto simp: answering_def preConfirm_def beforeTail_def isQuery_def isGit_def
      isMutation_def isPushCmd_def isTicketCall_def isPrint_def isGeneratorCall_def isReadLine_def)

lemma grows_answering_beforeTail: "grows answering s s' \<Longrightarrow> grows beforeTail s s'"
  by (erule grows_mono) (rule answering_beforeTail)

lemma grows_preConfirm_beforeTail: "grows preConfirm s s' \<Longrightarrow> grows beforeTail s s'"
  by (erule grows_mono) (simp add: answering_beforeTail answering_def)

lemma grows_query_beforeTail: "grows isQuery s s' \<Longrightarrow> grows beforeTail s s'"
  by (erule grows_mono) (simp add: answering_beforeTail answering_def preConfirm_def)

lemma grows_stage_beforeTail: "grows isStageCmd s s' \<Longrightarrow> grows beforeTail s s'"
proof (erule grows_mono)
  fix e assume "isStageCmd e"
  then show "beforeTail e"
    by (cases e) (auto simp: isStageCmd_def beforeTail_def isPushCmd_def isTicketCall_def)
qed

lemma Commit_beforeTail:
  "Commit E m s = (r, s') \<Longrightarrow> grows beforeTail s s'"
  by (auto simp: Commit_def grows_iff beforeTail_def isPushCmd_def isTicketCall_def
      dest!: runD split: prod.splits sum.splits)

lemma editLoop_frame:
  assumes ret: "editLoop lines s = Some y"
  shows "grows isReadLine s (snd y)"
proof (rule editLoop.raw_induct [where P = "\<lambda>l t r. grows isReadLine t (snd r)", OF _ ret], goal_cases)
  case (1 f l t r)
  obtain raw rest where sp: "splitLine (stdin t) = (raw, rest)" by fastforce
  let ?t1 = "emit (ReadLine raw) (t\<lparr>stdin := rest\<rparr>)"
  have g: "grows isReadLine t ?t1"
    by (simp add: grows_iff isReadLine_def)
  show ?case
  proof (cases "TrimRight raw [CHR 0x0A, CHR 0x0D] = [] \<and> l \<noteq> []")
    case True
    with "1"(2) sp have "r = (l, ?t1)"
      by (simp add: ReadString_def)
    with g show ?thesis by simp
  next
    case False
    with "1"(2) sp have "f (if TrimRight raw [CHR 0x0A, CHR 0x0D] \<noteq> [] then l @ [TrimRight raw [CHR 0x0A, CHR 0x0D]] else l) ?t1 = Some r"
      by (simp add: ReadString_def Let_def)
    from "1"(1) [OF this] g show ?thesis by (rule grows_trans [rotated])
  qed
qed

lemma confirmMessage_frame:
  assumes "confirmMessage auto m s = Some (x, s')"
  shows "grows answering s s'"
proof (cases auto)
  case True
  with assms show ?thesis by (simp add: confirmMessage_def)
next
  case False
  obtain raw rest where sp: "splitLine (stdin s) = (raw, rest)" by fastforce
  let ?s1 = "emit (ReadLine raw) (Println ''Proceed with this message? [Y/n/e(dit)]: '' s\<lparr>stdin := rest\<rparr>)"
  have g1: "grows answering s ?s1"
    by (simp add: grows_iff answering_def preConfirm_def isPrint_def isReadLine_def)
  show ?thesis
  proof (cases "classifyInput raw")
    case Edit
    let ?s2 = "Println ''Enter your commit message (press Enter twice to finish):'' ?s1"
    from assms False sp Edit obtain ls s3 where e: "editLoop [] ?s2 = Some (ls, s3)" and "s' = s3"
      by (auto simp: confirmMessage_def ReadString_def split: option.splits)
    from editLoop_frame [OF e] have "grows answering ?s2 s3"
      by (auto elim!: grows_mono simp: answering_def)
    moreover have "grows answering s ?s2"
      using g1 by (rule grows_PrintlnI) simp
    ultimately show ?thesis using \<open>s' = s3\<close> by (auto intro: grows_trans)
  next
    case Reject
    with assms False sp have "s' = Println ''Aborted'' ?s1"
      by (simp add: confirmMessage_def ReadString_def)
    with g1 show ?thesis by (simp add: grows_PrintlnI)
  next
    case Accept
    with assms False sp have "s' = ?s1"
      by (simp add: confirmMessage_def ReadString_def)
    with g1 show ?thesis by simp
  next
    case Invalid
    with assms False sp have "s' = Println ''Invalid input, aborted'' ?s1"
      by (simp add: confirmMessage_def ReadString_def)
    with g1 show ?thesis by (simp add: grows_PrintlnI)
  qed
qed

lemma generateAndPush_tail:
  assumes run: "generateAndPush E cfg diff nc s = Some (r, s')"
  shows "grows beforeTail s s'
       \<or> (\<exists>m s0. grows beforeTail s s0 \<and> pushAndTicket E cfg m s0 = (r, s'))"
proof -
  obtain cf s1 where a: "GetChangedFiles E s = (cf, s1)" by fastforce
  from GetChangedFilesD [OF a] have g1: "grows beforeTail s s1"
    by (simp add: grows_query_beforeTail)
  let ?files = "case cf of Inl err \<Rightarrow> [] | Inr fs \<Rightarrow> fs"
  show ?thesis
  proof (cases "diff = []")
    case True
    with a run have "s' = s1" by (simp add: generateAndPush_def)
    with g1 show ?thesis by simp
  next
    case False
    obtain g s2 where b: "GenerateCommitMessage E (resolveProvider cfg) diff ?files
        (Println ''Generating commit message...'' s1) = (g, s2)" by fastforce
    have "grows beforeTail s (Println ''Generating commit message...'' s1)"
      using g1 by (rule grows_PrintlnI) simp
    with GenerateCommitMessageD [OF b] have g2: "grows beforeTail s s2"
      by (auto intro: grows_trans grows_preConfirm_beforeTail)
    show ?thesis
    proof (cases g)
      case (Inl err)
      with a b False run have "s' = s2" by (simp add: generateAndPush_def)
      with g2 show ?thesis by simp
    next
      case (Inr generated)
      have g3: "grows beforeTail s (showProposal generated s2)"
        unfolding showProposal_def using g2 by (intro grows_PrintlnI) simp_all
      from a b False Inr run obtain x s3
        where c: "confirmMessage (autoConfirm cfg) generated (showProposal generated s2) = Some (x, s3)"
        by (auto simp: generateAndPush_def split: option.splits)
      from confirmMessage_frame [OF c] g3 have g4: "grows beforeTail s s3"
        by (blast intro: grows_trans grows_answering_beforeTail)
      show ?thesis
      proof (cases x)
        case None
        with a b c False Inr run have "s' = s3" by (simp add: generateAndPush_def)
        with g4 show ?thesis by simp
      next
        case (Some message)
        show ?thesis
        proof (cases nc)
          case False
          with a b c \<open>diff \<noteq> []\<close> Inr Some run
          have "pushAndTicket E cfg message s3 = (r, s')"
            by (simp add: generateAndPush_def)
          with g4 show ?thesis by blast
        next
          case True
          obtain ce s4 where d: "Commit E message (Println ''Creating commit...'' s3) = (ce, s4)"
            by fastforce
          have "grows beforeTail s (Println ''Creating commit...'' s3)"
            using g4 by (rule grows_PrintlnI) simp
          with Commit_beforeTail [OF d] have g5: "grows beforeTail s s4"
            by (blast intro: grows_trans)
          show ?thesis
          proof (cases ce)
            case (Some err)
            with a b c d \<open>diff \<noteq> []\<close> Inr \<open>x = Some message\<close> True run have "s' = s4"
              by (simp add: generateAndPush_def)
            with g5 show ?thesis by simp
          next
            case None
            with a b c d \<open>diff \<noteq> []\<close> Inr \<open>x = Some message\<close> True run
            have "pushAndTicket E cfg message (Println (''Committed: '' @ message) s4) = (r, s')"
              by (simp add: generateAndPush_def)
            moreover have "grows beforeTail s (Println (''Committed: '' @ message) s4)"
              using g5 by (rule grows_PrintlnI) simp
            ultimately show ?thesis by blast
          qed
        qed
      qed
    qed
  qed
qed

lemma afterStaging_frame:
  "afterStaging E cfg s = (st, s2) \<Longrightarrow> grows beforeTail s s2"
proof -
  assume b: "afterStaging E cfg s = (st, s2)"
  obtain ok s1 where a: "IsRepo E s = (ok, s1)" by fastforce
  from IsRepoD [OF a] have g1: "grows beforeTail s s1" by (simp add: grows_query_beforeTail)
  have g1': "grows beforeTail s (Println ''Analyzing your changes...'' s1)"
    using g1 by (rule grows_PrintlnI) simp
  show ?thesis
  proof (cases "stageAll cfg")
    case False
    with a b have "s2 = Println ''Analyzing your changes...'' s1"
      by (simp add: afterStaging_def)
    with g1' show ?thesis by simp
  next
    case True
    with a b have sa: "StageAll E (Println ''Staging all changes...''
        (Println ''Analyzing your changes...'' s1)) = (st, s2)"
      by (simp add: afterStaging_def)
    have "grows beforeTail s (Println ''Staging all changes...''
        (Println ''Analyzing your changes...'' s1))"
      using g1' by (rule grows_PrintlnI) simp
    with StageAllD [OF sa] show ?thesis
      by (blast intro: grows_trans grows_stage_beforeTail)
  qed
qed

lemma runPushx_unfold:
  "runPushx E cfg s =
     (if resolveApiKey cfg = [] then Some (Some apiKeyHelp, s)
      else if \<not> fst (IsRepo E s) then Some (Some ''not a git repository'', snd (IsRepo E s))
      else (case afterStaging E cfg s of
              (Some err, s2) \<Rightarrow> Some (Some (''failed to stage changes: '' @ err), s2)
            | (None, s2) \<Rightarrow>
                (case selectDiff E s2 of
                   (Inl err, s3) \<Rightarrow> Some (Some err, s3)
                 | (Inr (diff, needsCommit), s3) \<Rightarrow> generateAndPush E cfg diff needsCommit s3)))"
  by (cases "IsRepo E s") (auto simp: runPushx_def afterStaging_def)

lemma runPush_unfold:
  "runPush E cfg s =
     (if resolveApiKey cfg = [] then Some (Some apiKeyHelp, s)
      else if \<not> fst (IsRepo E s) then Some (Some ''not a git repository'', snd (IsRepo E s))
      else (case afterStaging E cfg s of
              (Some err, s2) \<Rightarrow> Some (Some (''failed to stage changes: '' @ err), s2)
            | (None, s2) \<Rightarrow>
                (case HasStagedChanges E s2 of
                   (Inl err, s3) \<Rightarrow> Some (Some (''failed to check staged changes: '' @ err), s3)
                 | (Inr hasStaged, s3) \<Rightarrow>
                     (case GetUnpushedCommitMessages E s3 of
                        (um, s4) \<Rightarrow>
                          commitOrPush E cfg hasStaged
                            (case um of Inl err \<Rightarrow> [] | Inr ms \<Rightarrow> ms) s4))))"
  by (cases "IsRepo E s") (auto simp: runPush_def afterStaging_def)

lemma runPushx_tail:
  assumes run: "runPushx E cfg s = Some (r, s')"
  shows "grows beforeTail s s'
       \<or> (\<exists>m s0. grows beforeTail s s0 \<and> pushAndTicket E cfg m s0 = (r, s'))"
proof (cases "resolveApiKey cfg = []")
  case True
  with run have "s' = s" by (simp add: runPushx_unfold)
  then show ?thesis by simp
next
  case key: False
  obtain ok s1 where a: "IsRepo E s = (ok, s1)" by fastforce
  from IsRepoD [OF a] have g1: "grows beforeTail s s1" by (simp add: grows_query_beforeTail)
  show ?thesis
  proof (cases ok)
    case False
    with run key a have "s' = s1" by (simp add: runPushx_unfold)
    with g1 show ?thesis by simp
  next
    case True
    obtain st s2 where b: "afterStaging E cfg s = (st, s2)" by fastforce
    note g2 = afterStaging_frame [OF b]
    show ?thesis
    proof (cases st)
      case (Some err)
      with run key a True b have "s' = s2" by (simp add: runPushx_unfold)
      with g2 show ?thesis by simp
    next
      case None
      obtain sd s3 where c: "selectDiff E s2 = (sd, s3)" by fastforce
      from selectDiffD [OF c] g2 have g3: "grows beforeTail s s3"
        by (blast intro: grows_trans grows_preConfirm_beforeTail)
      show ?thesis
      proof (cases sd)
        case (Inl err)
        with run key a True b None c have "s' = s3" by (simp add: runPushx_unfold)
        with g3 show ?thesis by simp
      next
        case (Inr dn)
        obtain diff nc where dn: "dn = (diff, nc)" by (cases dn)
        with run key a True b None c Inr
        have "generateAndPush E cfg diff nc s3 = Some (r, s')"
          by (simp add: runPushx_unfold)
        from generateAndPush_tail [OF this] g3 show ?thesis
          by (blast intro: grows_trans)
      qed
    qed
  qed
qed

lemma showUnpushed_beforeTail: "grows beforeTail s (showUnpushed ms s)"
proof (cases "ms = []")
  case True
  then show ?thesis by (simp add: showUnpushed_def)
next
  case False
  from showUnpushed_trace [OF False, of s] show ?thesis
    by (auto simp: grows_iff list_all_iff)
qed

lemma commitStaged_frame:
  assumes run: "commitStaged E cfg s = Some (x, s')"
  shows "grows beforeTail s s'"
proof -
  let ?s0 = "Println ''Found staged changes to commit'' s"
  have g0: "grows beforeTail s ?s0" by simp
  obtain d s1 where a: "GetStagedDiff E ?s0 = (d, s1)" by fastforce
  from GetStagedDiffD [OF a] g0 have g1: "grows beforeTail s s1"
    by (blast intro: grows_trans grows_query_beforeTail)
  show ?thesis
  proof (cases d)
    case (Inl err)
    with a run have "s' = s1" by (simp add: commitStaged_def)
    with g1 show ?thesis by simp
  next
    case (Inr diff)
    obtain cf s2 where b: "GetChangedFiles E s1 = (cf, s2)" by fastforce
    from GetChangedFilesD [OF b] g1 have g2: "grows beforeTail s s2"
      by (blast intro: grows_trans grows_query_beforeTail)
    let ?files = "case cf of Inl err \<Rightarrow> [] | Inr fs \<Rightarrow> fs"
    obtain g s3 where c: "GenerateCommitMessage E (resolveProvider cfg) diff ?files
        (Println ''Generating commit message...'' s2) = (g, s3)" by fastforce
    have "grows beforeTail s (Println ''Generating commit message...'' s2)"
      using g2 by (rule grows_PrintlnI) simp
    with GenerateCommitMessageD [OF c] have g3: "grows beforeTail s s3"
      by (auto intro: grows_trans grows_preConfirm_beforeTail)
    show ?thesis
    proof (cases g)
      case (Inl err)
      with a b c \<open>d = Inr diff\<close> run have "s' = s3" by (simp add: commitStaged_def)
      with g3 show ?thesis by simp
    next
      case (Inr generated)
      have g4: "grows beforeTail s (showProposal generated s3)"
        unfolding showProposal_def using g3 by (intro grows_PrintlnI) simp_all
      from a b c \<open>d = Inr diff\<close> Inr run obtain y s4
        where e: "confirmMessage (autoConfirm cfg) generated (showProposal generated s3) = Some (y, s4)"
        by (auto simp: commitStaged_def split: option.splits)
      from confirmMessage_frame [OF e] g4 have g5: "grows beforeTail s s4"
        by (blast intro: grows_trans grows_answering_beforeTail)
      show ?thesis
      proof (cases y)
        case None
        with a b c e \<open>d = Inr diff\<close> Inr run have "s' = s4" by (simp add: commitStaged_def)
        with g5 show ?thesis by simp
      next
        case (Some message)
        obtain ce s5 where f: "Commit E message (Println ''Creating commit...'' s4) = (ce, s5)"
          by fastforce
        have "grows beforeTail s (Println ''Creating commit...'' s4)"
          using g5 by (rule grows_PrintlnI) simp
        with Commit_beforeTail [OF f] have g6: "grows beforeTail s s5"
          by (blast intro: grows_trans)
        from a b c e f \<open>d = Inr diff\<close> Inr Some run
        have "s' = s5 \<or> s' = Println (''Committed: '' @ message) s5"
          by (cases ce) (simp_all add: commitStaged_def)
        with g6 show ?thesis by (auto intro: grows_PrintlnI)
      qed
    qed
  qed
qed

lemma pushOnly_frame:
  "pushOnly E cfg ms s = (x, s') \<Longrightarrow> grows beforeTail s s'"
proof -
  assume run: "pushOnly E cfg ms s = (x, s')"
  show ?thesis
  proof (cases "ms = []")
    case True
    obtain u s1 where a: "HasUnstagedChanges E s = (u, s1)" by fastforce
    with True run have "s' = s1" by (auto simp: pushOnly_def split: if_splits)
    with HasUnstagedChangesD [OF a] show ?thesis by (simp add: grows_query_beforeTail)
  next
    case False
    obtain raw rest where sp: "splitLine (stdin s) = (raw, rest)" by fastforce
    from False sp run show ?thesis
      by (auto simp: pushOnly_def ReadString_def Let_def grows_iff beforeTail_def
          isPushCmd_def isTicketCall_def split: if_splits)
  qed
qed

lemma commitOrPush_tail:
  assumes run: "commitOrPush E cfg hasStaged ms s = Some (r, s')"
  shows "grows beforeTail s s'
       \<or> (\<exists>m s0. grows beforeTail s s0 \<and> pushAndTicket E cfg m s0 = (r, s'))"
proof -
  let ?s1 = "showUnpushed ms s"
  note g1 = showUnpushed_beforeTail [of s ms]
  from run obtain x s2 where
    a: "(if hasStaged then commitStaged E cfg ?s1 else Some (pushOnly E cfg ms ?s1)) = Some (x, s2)"
    by (auto simp: commitOrPush_def Let_def split: option.splits)
  have g2: "grows beforeTail s s2"
  proof (cases hasStaged)
    case True
    with a have "commitStaged E cfg ?s1 = Some (x, s2)" by simp
    from commitStaged_frame [OF this] g1 show ?thesis by (blast intro: grows_trans)
  next
    case False
    with a have "pushOnly E cfg ms ?s1 = (x, s2)" by simp
    from pushOnly_frame [OF this] g1 show ?thesis by (blast intro: grows_trans)
  qed
  show ?thesis
  proof (cases x)
    case (Inl r0)
    with run a have "s' = s2" by (simp add: commitOrPush_def Let_def)
    with g2 show ?thesis by simp
  next
    case (Inr message)
    with run a have "pushAndTicket E cfg message s2 = (r, s')"
      by (simp add: commitOrPush_def Let_def)
    with g2 show ?thesis by blast
  qed
qed

lemma runPush_tail:
  assumes run: "runPush E cfg s = Some (r, s')"
  shows "grows beforeTail s s'
       \<or> (\<exists>m s0. grows beforeTail s s0 \<and> pushAndTicket E cfg m s0 = (r, s'))"
proof (cases "resolveApiKey cfg = []")
  case True
  with run have "s' = s" by (simp add: runPush_unfold)
  then show ?thesis by simp
next
  case key: False
  obtain ok s1 where a: "IsRepo E s = (ok, s1)" by fastforce
  from IsRepoD [OF a] have g1: "grows beforeTail s s1" by (simp add: grows_query_beforeTail)
  show ?thesis
  proof (cases ok)
    case False
    with run key a have "s' = s1" by (simp add: runPush_unfold)
    with g1 show ?thesis by simp
  next
    case True
    obtain st s2 where b: "afterStaging E cfg s = (st, s2)" by fastforce
    note g2 = afterStaging_frame [OF b]
    show ?thesis
    proof (cases st)
      case (Some err)
      with run key a True b have "s' = s2" by (simp add: runPush_unfold)
      with g2 show ?thesis by simp
    next
      case None
      obtain h s3 where c: "HasStagedChanges E s2 = (h, s3)" by fastforce
      from HasStagedChangesD [OF c] g2 have g3: "grows beforeTail s s3"
        by (blast intro: grows_trans grows_query_beforeTail)
      show ?thesis
      proof (cases h)
        case (Inl err)
        with run key a True b None c have "s' = s3" by (simp add: runPush_unfold)
        with g3 show ?thesis by simp
      next
        case (Inr hasStaged)
        obtain um s4 where d: "GetUnpushedCommitMessages E s3 = (um, s4)" by fastforce
        from GetUnpushedCommitMessagesD [OF d] g3 have g4: "grows beforeTail s s4"
          by (blast intro: grows_trans grows_query_beforeTail)
        from run key a True b None c Inr d
        have "commitOrPush E cfg hasStaged (case um of Inl err \<Rightarrow> [] | Inr ms \<Rightarrow> ms) s4 = Some (r, s')"
          by (simp add: runPush_unfold)
        from commitOrPush_tail [OF this] g4 show ?thesis
          by (blast intro: grows_trans)
      qed
    qed
  qed
qed

text \<open>What the two snapshot queries return, in terms of the git commands they run.\<close>

lemma IsFirstPushToBranch_true:
  "fst (IsFirstPushToBranch E s) = Inr True \<longleftrightarrow>
     (\<exists>branch err.
        fst (GetCurrentBranch E s) = Inr branch
        \<and> fst (run E [''rev-parse'', ''--abbrev-ref'', upstreamOf branch] (snd (GetCurrentBranch E s)))
            = Inl err)"
  by (auto simp: IsFirstPushToBranch_def split: prod.splits sum.splits)

lemma IsMainBranch_true:
  "fst (IsMainBranch E s) \<longleftrightarrow>
     fst (GetCurrentBranch E s) = Inr ''main'' \<or> fst (GetCurrentBranch E s) = Inr ''master''"
  by (auto simp: IsMainBranch_def split: prod.splits sum.splits)

section \<open>Errors of the checked reads\<close>

lemma run_failure:
  "fst (run E args s) = Inl err \<Longrightarrow>
   \<exists>stderr. err = ''git '' @ Join args '' '' @ '' failed: '' @ stderr"
  by (auto simp: run_def Let_def split: prod.splits sum.splits)

lemma HasStagedChanges_failure:
  "fst (HasStagedChanges E s) = Inl err \<Longrightarrow>
   \<exists>stderr. err = ''git diff --cached --name-only failed: '' @ stderr"
  using run_failure [of E "[''diff'', ''--cached'', ''--name-only'']" s err]
  by (auto simp: HasStagedChanges_def split: prod.splits sum.splits)

lemma GetStagedDiff_failure:
  "fst (GetStagedDiff E s) = Inl err \<Longrightarrow>
   \<exists>stderr. err = ''git diff --cached failed: '' @ stderr"
  using run_failure [of E "[''diff'', ''--cached'']" s err]
  by (auto simp: GetStagedDiff_def)

section \<open>Unfolding concrete runs\<close>

lemmas sim_defs = simEnv_def simGit_def simConfig_def simRepo_def start_def upstreamOf_def diffText_def

lemmas run_defs = resolveApiKey_def resolveProvider_def IsRepo_def run_def HasStagedChanges_def
  GetStagedDiff_def GetChangedFiles_def GetCurrentBranch_def GetUnpushedCommitMessages_def
  GenerateCommitMessage_def showProposal_def showUnpushed_def TrimSpace_def isSpace_def
  Split.simps Let_def emit_def Println_def

lemma blank_line_does_not_end_the_edit:
  "map_option (\<lambda>(r, s). (r, filter isMutation (trace s)))
     (runPushx simEnv (simConfig\<lparr>jira_url := []\<rparr>)
        (start simRepo (''e'' @ [CHR 0x0A, CHR 0x0A] @ ''fix: typo'' @ [CHR 0x0A, CHR 0x0A])))
   = Some (None,
       [Git [''commit'', ''-m'', ''fix: typo''] (Inr []),
        Git [''push'', ''origin'', ''feature/x'']
          (Inl ''git push origin feature/x failed: fatal: the current branch has no upstream branch''),
        Git [''push'', ''-u'', ''origin'', ''feature/x''] (Inr [])])"
  by code_simp

section \<open>The properties of the specification\<close>







text \<open>
  \<^bold>\<open>C9.\<close> In every run of \<open>pushAndTicket\<close>, when the creation of the issue fails, or when
  the transition to In Progress fails, the run returns \<open>nil\<close> (the result of a run whose
  ticket step succeeded) and the matching warning has been printed.
\<close>

theorem ticket_failure_not_fatal:
  assumes "pushAndTicket E cfg message s = (r, s')"
  shows "(JiraCreate m (Inl e) \<in> set (newEvents s s') \<longrightarrow>
            r = None \<and> Print (''Warning: Failed to create Jira ticket: failed to create issue: '' @ e)
                         \<in> set (newEvents s s'))
       \<and> (JiraTransition k (Some e') \<in> set (newEvents s s') \<longrightarrow>
            r = None \<and> Print (''Warning: Could not transition to In Progress: '' @ e')
                         \<in> set (newEvents s s'))"
proof -
  from pushAndTicket_shape [OF assms] obtain sx where g: "grows pushPhase s sx"
    and alt: "(\<exists>err. r = Some err \<and> s' = sx) \<or> (\<exists>fp mb. createTicket E cfg message fp mb sx = (r, s'))"
    by blast
  note nj = pushPhase_no_jira [OF g]
  from alt show ?thesis
  proof
    assume "\<exists>err. r = Some err \<and> s' = sx"
    with nj show ?thesis by auto
  next
    assume "\<exists>fp mb. createTicket E cfg message fp mb sx = (r, s')"
    then obtain fp mb where ct: "createTicket E cfg message fp mb sx = (r, s')" by blast
    note ev = createTicket_events [OF ct, of m e k e']
    from ev have g2: "grows (\<lambda>e. \<not> isGit e) sx s'" by simp
    have split: "newEvents s s' = newEvents s sx @ newEvents sx s'"
      by (rule newEvents_trans [OF g g2])
    show ?thesis using ev nj by (auto simp: split)
  qed
qed

theorem ticket_failure_not_fatal_witness:
  "JiraCreate ''feat(api): add login'' (Inl ''status 500'')
     \<in> set (newEvents (start simRepo [])
          (snd (pushAndTicket (simEnv\<lparr>jira_create := (\<lambda>summary r. (Inl ''status 500'', r))\<rparr>)
                  simConfig ''feat(api): add login'' (start simRepo []))))
   \<and> fst (pushAndTicket (simEnv\<lparr>jira_create := (\<lambda>summary r. (Inl ''status 500'', r))\<rparr>)
            simConfig ''feat(api): add login'' (start simRepo [])) = None
   \<and> Print (''Warning: Failed to create Jira ticket: failed to create issue: '' @ ''status 500'')
     \<in> set (newEvents (start simRepo [])
          (snd (pushAndTicket (simEnv\<lparr>jira_create := (\<lambda>summary r. (Inl ''status 500'', r))\<rparr>)
                  simConfig ''feat(api): add login'' (start simRepo []))))"
proof -
  let ?E = "simEnv\<lparr>jira_create := (\<lambda>summary r. (Inl ''status 500'', r))\<rparr>"
  let ?p = "pushAndTicket ?E simConfig ''feat(api): add login'' (start simRepo [])"
  have h: "?p = (fst ?p, snd ?p)" by simp
  have m: "JiraCreate ''feat(api): add login'' (Inl ''status 500'')
             \<in> set (newEvents (start simRepo []) (snd ?p))" by code_simp
  from ticket_failure_not_fatal [OF h, of "''feat(api): add login''" "''status 500''"] m
  show ?thesis by simp
qed

text \<open>
  \<^bold>\<open>C10.\<close> The branch of the confirmation switch does not depend on the letter case of
  the answer nor on white space around it: two answers that are equal up to ASCII letter
  case, each padded with any white space on both sides, select the same branch. The
  concrete instance evaluates the six answers the specification names.
\<close>

theorem confirmation_ignores_case_and_padding:
  assumes "ToLower a = ToLower b"
    and "list_all isSpace l1" and "list_all isSpace r1"
    and "list_all isSpace l2" and "list_all isSpace r2"
  shows "classifyInput (l1 @ a @ r1) = classifyInput (l2 @ b @ r2)"
proof -
  have "TrimSpace (ToLower (l1 @ a @ r1)) = TrimSpace (ToLower a)"
    using assms(2,3) TrimSpace_pad [of "ToLower l1" "ToLower r1" "ToLower a"]
    by (simp add: allSpace_ToLower) (simp add: ToLower_def)
  moreover have "TrimSpace (ToLower (l2 @ b @ r2)) = TrimSpace (ToLower b)"
    using assms(4,5) TrimSpace_pad [of "ToLower l2" "ToLower r2" "ToLower b"]
    by (simp add: allSpace_ToLower) (simp add: ToLower_def)
  ultimately show ?thesis
    using assms(1) by (simp add: classifyInput_def)
qed

theorem confirmation_ignores_case_and_padding_witness:
  "classifyInput ('' '' @ ''YeS'' @ [CHR 0x0D, CHR 0x0A]) = classifyInput ([] @ ''yes'' @ [])
   \<and> classifyInput ''Y'' = Accept \<and> classifyInput '' yes '' = Accept
   \<and> classifyInput ''N'' = Reject \<and> classifyInput ''NO'' = Reject
   \<and> classifyInput ''E'' = Edit \<and> classifyInput ''Edit'' = Edit
   \<and> classifyInput ''y'' = Accept \<and> classifyInput ''yes'' = Accept
   \<and> classifyInput ''n'' = Reject \<and> classifyInput ''no'' = Reject
   \<and> classifyInput ''e'' = Edit \<and> classifyInput ''edit'' = Edit"
proof -
  have a: "ToLower ''YeS'' = ToLower ''yes''" by code_simp
  have b: "list_all isSpace '' ''" "list_all isSpace [CHR 0x0D, CHR 0x0A]" "list_all isSpace []"
    by code_simp+
  have c: "classifyInput ''Y'' = Accept \<and> classifyInput '' yes '' = Accept
   \<and> classifyInput ''N'' = Reject \<and> classifyInput ''NO'' = Reject
   \<and> classifyInput ''E'' = Edit \<and> classifyInput ''Edit'' = Edit
   \<and> classifyInput ''y'' = Accept \<and> classifyInput ''yes'' = Accept
   \<and> classifyInput ''n'' = Reject \<and> classifyInput ''no'' = Reject
   \<and> classifyInput ''e'' = Edit \<and> classifyInput ''edit'' = Edit" by code_simp
  from confirmation_ignores_case_and_padding [OF a b(1) b(2) b(3) b(3)] c
  show ?thesis by blast
qed

text \<open>
  \<^bold>\<open>C6.\<close> \<open>GetRemote\<close> prefers \<open>origin\<close> and otherwise returns the first listed remote,
  but with no remote at all it does not fail: \<open>git remote\<close> prints nothing,
  \<open>strings.Split("", "\n")\<close> is the one-element list \<open>[""]\<close>, the test
  \<open>len(remotes) == 0\<close> is false, and the empty string is returned as the remote.
\<close>

theorem GetRemote_without_remotes:
  "fst (GetRemote simEnv (start (simRepo\<lparr>remotes := []\<rparr>) [])) = Inr []"
  by code_simp

text \<open>
  \<^bold>\<open>C8\<close> (corrected). When confirmation is interactive and the first line of the input
  is a rejection or is none of the accepted answers, every run of \<open>runPushx\<close> returns; if
  the answer was read at all (the prompt was reached) it returns \<open>nil\<close>; it makes no call
  of the tracker; and the only git commands that change the repository are the staging
  command \<open>git add -A\<close> of the \<^verbatim>\<open>--all\<close> flag, so without that flag there is none: no
  commit and no push in either case.
\<close>

theorem rejection_aborts:
  assumes "\<not> autoConfirm cfg"
    and "classifyInput (fst (splitLine (stdin s))) = Reject
         \<or> classifyInput (fst (splitLine (stdin s))) = Invalid"
  shows "\<exists>r s'. runPushx E cfg s = Some (r, s')
           \<and> (filter isReadLine (newEvents s s') = [] \<or> r = None)
           \<and> mutations s' = mutations s @ filter isStageCmd (newEvents s s')
           \<and> (stageAll cfg \<or> mutations s' = mutations s)
           \<and> ticketCalls s' = ticketCalls s"
proof -
  from runPushx_reject [OF assms, of E]
  obtain r s' where res: "runPushx E cfg s = Some (r, s')"
    and g: "grows (staging (stageAll cfg)) s s'"
    and rd: "filter isReadLine (newEvents s s') = [] \<or> r = None" by blast
  from staging_views [OF g] res rd show ?thesis by blast
qed

theorem rejection_aborts_witness:
  "\<not> autoConfirm simConfig
   \<and> classifyInput (fst (splitLine (stdin (start simRepo (''No'' @ [CHR 0x0A]))))) = Reject
   \<and> (\<exists>r s'. runPushx simEnv simConfig (start simRepo (''No'' @ [CHR 0x0A])) = Some (r, s')
           \<and> (filter isReadLine (newEvents (start simRepo (''No'' @ [CHR 0x0A])) s') = [] \<or> r = None)
           \<and> mutations s' = mutations (start simRepo (''No'' @ [CHR 0x0A]))
                @ filter isStageCmd (newEvents (start simRepo (''No'' @ [CHR 0x0A])) s')
           \<and> (stageAll simConfig \<or> mutations s' = mutations (start simRepo (''No'' @ [CHR 0x0A])))
           \<and> ticketCalls s' = ticketCalls (start simRepo (''No'' @ [CHR 0x0A])))"
proof -
  have a: "\<not> autoConfirm simConfig" by code_simp
  have b: "classifyInput (fst (splitLine (stdin (start simRepo (''No'' @ [CHR 0x0A]))))) = Reject"
    by code_simp
  from rejection_aborts [OF a disjI1 [OF b], of simEnv] a b show ?thesis by blast
qed

text \<open>
  The specification also promises an unchanged staged and unstaged state. With
  \<^verbatim>\<open>--all\<close> the run has staged the working tree before it asks: in the repository
  double, \<open>notes.md\<close> has moved from the unstaged to the staged files when the run
  returns \<open>nil\<close> after the answer "n".
\<close>

theorem rejection_after_staging_counterexample:
  "map_option (\<lambda>(r, s). (r, staged (world s), unstaged (world s)))
     (runPushx simEnv (simConfig\<lparr>stageAll := True\<rparr>) (start simRepo (''n'' @ [CHR 0x0A])))
     = Some (None, [''api.go'', ''notes.md''], [])
   \<and> (staged simRepo, unstaged simRepo) = ([''api.go''], [''notes.md''])"
  by code_simp

text \<open>
  \<^bold>\<open>C7.\<close> The edit loop leaves only on an empty line that follows at least one
  non-empty line (\<open>line == "" && len(lines) > 0\<close>), so the test \<open>len(lines) > 0\<close>
  after the loop can never fail. The lines entered do replace the message
  (\<open>edit_replaces_message\<close>). But when the user chooses edit and then submits an empty
  line at once, the loop does not end: it ignores the line and reads on, and at the end
  of the input, where \<open>ReadString\<close> keeps returning the empty string and an error that
  is discarded, it never returns. Neither orchestrator returns on the input \<open>e\<close>,
  newline, newline; \<open>blank_line_does_not_end_the_edit\<close> shows the same input followed
  by a line of text committing that text instead of the proposal.
\<close>

theorem edit_without_lines_never_returns:
  "runPushx simEnv simConfig (start simRepo (''e'' @ [CHR 0x0A, CHR 0x0A])) = None
   \<and> runPush simEnv simConfig (start simRepo (''e'' @ [CHR 0x0A, CHR 0x0A])) = None"
proof
  show "runPushx simEnv simConfig (start simRepo (''e'' @ [CHR 0x0A, CHR 0x0A])) = None"
    by (simp add: runPushx_def selectDiff_def generateAndPush_def sim_defs run_defs
        confirmMessage_edit_blank classifyInput_def ToLower_def toLowerByte_def)
  show "runPush simEnv simConfig (start simRepo (''e'' @ [CHR 0x0A, CHR 0x0A])) = None"
    by (simp add: runPush_def commitOrPush_def commitStaged_def sim_defs run_defs
        confirmMessage_edit_blank classifyInput_def ToLower_def toLowerByte_def)
qed

text \<open>
  \<^bold>\<open>C5\<close> (corrected). The reads whose error the orchestrators check are fatal: in a
  run that reaches the staged-changes check, a failure of that check makes \<open>runPushx\<close>
  and \<open>runPush\<close> return it at once, prefixed and with the failing git command in the
  text, and a failure of the staged-diff read does the same in \<open>runPushx\<close>. The run
  stops in the state the failed read left.
\<close>

theorem checked_reads_are_fatal:
  assumes "resolveApiKey cfg \<noteq> []" and "fst (IsRepo E s)" and "fst (afterStaging E cfg s) = None"
  shows "(fst (HasStagedChanges E (snd (afterStaging E cfg s))) = Inl err \<longrightarrow>
            (\<exists>stderr. err = ''git diff --cached --name-only failed: '' @ stderr)
            \<and> runPushx E cfg s = Some (Some (''failed to check staged changes: '' @ err),
                                      snd (HasStagedChanges E (snd (afterStaging E cfg s))))
            \<and> runPush E cfg s = Some (Some (''failed to check staged changes: '' @ err),
                                      snd (HasStagedChanges E (snd (afterStaging E cfg s)))))
       \<and> (fst (HasStagedChanges E (snd (afterStaging E cfg s))) = Inr True
            \<and> fst (GetStagedDiff E (snd (HasStagedChanges E (snd (afterStaging E cfg s))))) = Inl err \<longrightarrow>
            (\<exists>stderr. err = ''git diff --cached failed: '' @ stderr)
            \<and> runPushx E cfg s = Some (Some (''failed to get staged diff: '' @ err),
                 snd (GetStagedDiff E (snd (HasStagedChanges E (snd (afterStaging E cfg s)))))))"
proof -
  obtain ok s1 where a: "IsRepo E s = (ok, s1)" by fastforce
  with assms(2) have ok: "ok" by simp
  obtain st s2 where b: "afterStaging E cfg s = (st, s2)" by fastforce
  with assms(3) have st: "st = None" by simp
  from a have s1: "snd (IsRepo E s) = s1" by simp
  from b have b': "(if stageAll cfg then StageAll E (Println ''Staging all changes...''
                                   (Println ''Analyzing your changes...'' s1))
                    else (None, Println ''Analyzing your changes...'' s1)) = (st, s2)"
    by (simp add: afterStaging_def s1 split: if_splits)
  obtain h s3 where c: "HasStagedChanges E s2 = (h, s3)" by fastforce
  obtain d s4 where d: "GetStagedDiff E s3 = (d, s4)" by fastforce
  have x: "runPushx E cfg s = (case selectDiff E s2 of
                     (Inl err, s3) \<Rightarrow> Some (Some err, s3)
                   | (Inr (diff, needsCommit), s3) \<Rightarrow> generateAndPush E cfg diff needsCommit s3)"
    using assms(1) a ok b' st by (simp add: runPushx_def)
  have y: "h = Inl err \<Longrightarrow> runPush E cfg s = Some (Some (''failed to check staged changes: '' @ err), s3)"
    using assms(1) a ok b' st c by (simp add: runPush_def)
  have x1: "h = Inl err \<Longrightarrow> runPushx E cfg s = Some (Some (''failed to check staged changes: '' @ err), s3)"
    using x c by (simp add: selectDiff_def)
  have x2: "h = Inr True \<Longrightarrow> d = Inl err \<Longrightarrow>
      runPushx E cfg s = Some (Some (''failed to get staged diff: '' @ err), s4)"
    using x c d by (simp add: selectDiff_def)
  show ?thesis
    using x1 x2 y HasStagedChanges_failure [of E s2 err] GetStagedDiff_failure [of E s3 err]
    by (simp add: b c d)
qed

theorem checked_reads_are_fatal_witness:
  "resolveApiKey simConfig \<noteq> []
   \<and> fst (IsRepo simEnv (start (simRepo\<lparr>failing := [[''diff'', ''--cached'', ''--name-only'']]\<rparr>) []))
   \<and> fst (afterStaging simEnv simConfig
            (start (simRepo\<lparr>failing := [[''diff'', ''--cached'', ''--name-only'']]\<rparr>) [])) = None
   \<and> map_option fst (runPushx simEnv simConfig
            (start (simRepo\<lparr>failing := [[''diff'', ''--cached'', ''--name-only'']]\<rparr>) []))
       = Some (Some (''failed to check staged changes: ''
                     @ ''git diff --cached --name-only failed: fatal: injected failure''))"
proof -
  let ?s = "start (simRepo\<lparr>failing := [[''diff'', ''--cached'', ''--name-only'']]\<rparr>) []"
  have a: "resolveApiKey simConfig \<noteq> []" by code_simp
  have b: "fst (IsRepo simEnv ?s)" by code_simp
  have c: "fst (afterStaging simEnv simConfig ?s) = None" by code_simp
  have d: "fst (HasStagedChanges simEnv (snd (afterStaging simEnv simConfig ?s)))
           = Inl ''git diff --cached --name-only failed: fatal: injected failure''" by code_simp
  from checked_reads_are_fatal [OF a b c,
      of "''git diff --cached --name-only failed: fatal: injected failure''"] d
  have "runPushx simEnv simConfig ?s
        = Some (Some (''failed to check staged changes: ''
                      @ ''git diff --cached --name-only failed: fatal: injected failure''),
                snd (HasStagedChanges simEnv (snd (afterStaging simEnv simConfig ?s))))"
    by blast
  with a b c show ?thesis by simp
qed

text \<open>
  The errors of the other reads are discarded by the source (\<open>hasUnstaged, _ :=\<close>,
  \<open>changedFiles, _ =\<close>, \<open>isFirstPush, _ :=\<close>, \<open>unpushedMessages, _ :=\<close>, and
  \<open>IsMainBranch\<close> returning false on an error). With a failing unstaged-changes check
  the run goes on with \<open>hasUnstaged = false\<close> and returns "no changes to commit or
  push", although the repository has an unstaged file; the error of the failed command
  is not what the caller gets.
\<close>

theorem discarded_read_error_counterexample:
  "map_option (\<lambda>(r, s). (r, last (trace s)))
     (runPushx simEnv simConfig
        (start (simRepo\<lparr>staged := [], tracking := True, failing := [[''diff'', ''--name-only'']]\<rparr>) []))
   = Some (Some ''no changes to commit or push'',
           Git [''diff'', ''--name-only''] (Inl ''git diff --name-only failed: fatal: injected failure''))"
  by code_simp

text \<open>
  \<^bold>\<open>C3\<close> (corrected). In \<open>runPush\<close>, what follows the observations "nothing staged" and
  "a non-empty list of unpushed commits" (\<open>commitOrPush\<close> with \<open>hasStaged = False\<close>)
  always returns, never calls the message generator, reads at most one line of input,
  the answer to "Push these commits? [Y/n]", never prints the message prompt, and either
  stops with \<open>nil\<close> (the user declined) or runs the push-and-ticket tail with the subject
  of the first listed commit as the message. The first listed commit is the most recent
  one, since \<open>git log\<close> lists the newest commit first. The hypothesis on the line is the
  format \<open>%h - %s\<close>: a hash without blanks, the separator, the subject.
\<close>

theorem unpushed_only_reuses_message:
  assumes "ms \<noteq> []" and "hd ms = h @ '' - '' @ subject" and "CHR '' '' \<notin> set h"
  shows "\<exists>r s'. commitOrPush E cfg False ms s = Some (r, s')
     \<and> generatorCalls s' = generatorCalls s
     \<and> filter isReadLine (newEvents s s')
         = (if autoConfirm cfg then [] else [ReadLine (fst (splitLine (stdin s)))])
     \<and> (autoConfirm cfg \<or> Print ''Push these commits? [Y/n]: '' \<in> set (newEvents s s'))
     \<and> Print ''Proceed with this message? [Y/n/e(dit)]: '' \<notin> set (newEvents s s')
     \<and> ((r, s') = (None, snd (pushOnly E cfg ms (showUnpushed ms s)))
        \<or> (r, s') = pushAndTicket E cfg subject (snd (pushOnly E cfg ms (showUnpushed ms s))))"
proof -
  let ?u = "showUnpushed ms s"
  let ?p = "pushOnly E cfg ms ?u"
  let ?U = "Print (''Found '' @ Itoa (length ms) @ '' existing unpushed commit(s):'')
       # map (\<lambda>m. Print (''   * '' @ m)) ms @ [Print []]"
  let ?PE = "pushOnlyEvents (autoConfirm cfg) (fst (splitLine (stdin s))) (fst ?p = Inl None)"
  from showUnpushed_trace [OF assms(1), of s]
  have u: "trace ?u = trace s @ ?U" and iu: "stdin ?u = stdin s" by simp_all
  from pushOnly_trace [OF assms, of E cfg ?u]
  have alt: "fst ?p = Inl None \<or> fst ?p = Inr subject"
    and tp: "trace (snd ?p) = trace s @ ?U @ ?PE"
    by (simp_all add: u iu)
  have rlU: "filter isReadLine ?U = []" and gcU: "filter isGeneratorCall ?U = []"
    and npU: "Print ''Proceed with this message? [Y/n/e(dit)]: '' \<notin> set ?U"
    by (auto simp: isReadLine_def isGeneratorCall_def)
  have rlP: "filter isReadLine ?PE
               = (if autoConfirm cfg then [] else [ReadLine (fst (splitLine (stdin s)))])"
    and gcP: "filter isGeneratorCall ?PE = []"
    and pqP: "autoConfirm cfg \<or> Print ''Push these commits? [Y/n]: '' \<in> set ?PE"
    and npP: "Print ''Proceed with this message? [Y/n/e(dit)]: '' \<notin> set ?PE"
    by (auto simp: pushOnlyEvents_def isReadLine_def isGeneratorCall_def ruleLine_def)
  from alt show ?thesis
  proof
    assume d: "fst ?p = Inl None"
    have res: "commitOrPush E cfg False ms s = Some (None, snd ?p)"
      by (simp add: commitOrPush_def Let_def case_prod_beta d)
    have ne: "newEvents s (snd ?p) = ?U @ ?PE"
      using tp by (simp add: newEvents_def)
    have gc: "generatorCalls (snd ?p) = generatorCalls s"
      unfolding generatorCalls_def tp by (simp only: filter_append gcU gcP append_Nil2)
    have rl: "filter isReadLine (newEvents s (snd ?p))
           = (if autoConfirm cfg then [] else [ReadLine (fst (splitLine (stdin s)))])"
      unfolding ne by (simp only: filter_append rlU rlP append_Nil)
    have pq: "autoConfirm cfg \<or> Print ''Push these commits? [Y/n]: '' \<in> set (newEvents s (snd ?p))"
      unfolding ne using pqP by (simp only: set_append Un_iff) blast
    have np: "Print ''Proceed with this message? [Y/n/e(dit)]: '' \<notin> set (newEvents s (snd ?p))"
      unfolding ne using npU npP by (simp only: set_append Un_iff) blast
    from res gc rl pq np show ?thesis by blast
  next
    assume a: "fst ?p = Inr subject"
    obtain r s' where t: "pushAndTicket E cfg subject (snd ?p) = (r, s')" by fastforce
    have res: "commitOrPush E cfg False ms s = Some (r, s')"
      by (simp add: commitOrPush_def Let_def case_prod_beta a t)
    from pushAndTicket_quiet [OF t] have q: "grows quiet (snd ?p) s'" by simp
    from grows_newEvents [OF q] have ts: "trace s' = trace s @ ?U @ ?PE @ newEvents (snd ?p) s'"
      using tp by (simp only: append_assoc)
    have ne: "newEvents s s' = ?U @ ?PE @ newEvents (snd ?p) s'"
      using ts by (rule newEvents_append)
    note qv = quiet_views [OF q]
    have gc: "generatorCalls s' = generatorCalls s"
      unfolding generatorCalls_def ts
      by (simp only: filter_append gcU gcP qv append_Nil2)
    have rl: "filter isReadLine (newEvents s s')
         = (if autoConfirm cfg then [] else [ReadLine (fst (splitLine (stdin s)))])"
      unfolding ne by (simp only: filter_append rlU rlP qv append_Nil append_Nil2)
    have pq: "autoConfirm cfg \<or> Print ''Push these commits? [Y/n]: '' \<in> set (newEvents s s')"
      unfolding ne using pqP by (simp only: set_append Un_iff) blast
    have np: "Print ''Proceed with this message? [Y/n/e(dit)]: '' \<notin> set (newEvents s s')"
      unfolding ne using npU npP qv by (simp only: set_append Un_iff) blast
    have "(r, s') = pushAndTicket E cfg subject (snd ?p)" using t by simp
    with res gc rl pq np show ?thesis by blast
  qed
qed

theorem unpushed_only_reuses_message_witness:
  "[''abc1234 - fix: typo''] \<noteq> []
   \<and> hd [''abc1234 - fix: typo''] = ''abc1234'' @ '' - '' @ ''fix: typo''
   \<and> CHR '' '' \<notin> set ''abc1234''
   \<and> (\<exists>r s'. commitOrPush simEnv simConfig False [''abc1234 - fix: typo''] (start simRepo ''y'') = Some (r, s')
     \<and> generatorCalls s' = generatorCalls (start simRepo ''y'')
     \<and> filter isReadLine (newEvents (start simRepo ''y'') s')
         = (if autoConfirm simConfig then [] else [ReadLine (fst (splitLine (stdin (start simRepo ''y''))))])
     \<and> (autoConfirm simConfig \<or> Print ''Push these commits? [Y/n]: '' \<in> set (newEvents (start simRepo ''y'') s'))
     \<and> Print ''Proceed with this message? [Y/n/e(dit)]: '' \<notin> set (newEvents (start simRepo ''y'') s')
     \<and> ((r, s') = (None, snd (pushOnly simEnv simConfig [''abc1234 - fix: typo'']
                                  (showUnpushed [''abc1234 - fix: typo''] (start simRepo ''y''))))
        \<or> (r, s') = pushAndTicket simEnv simConfig ''fix: typo''
                       (snd (pushOnly simEnv simConfig [''abc1234 - fix: typo'']
                                  (showUnpushed [''abc1234 - fix: typo''] (start simRepo ''y''))))))"
proof -
  have a: "[''abc1234 - fix: typo''] \<noteq> []" by simp
  have b: "hd [''abc1234 - fix: typo''] = ''abc1234'' @ '' - '' @ ''fix: typo''" by simp
  have c: "CHR '' '' \<notin> set ''abc1234''" by simp
  from unpushed_only_reuses_message [OF a b c, of simEnv simConfig "start simRepo ''y''"] a b c
  show ?thesis by blast
qed

text \<open>
  \<open>runPushx\<close> behaves differently in the same situation: with nothing staged and one
  unpushed commit it summarises the unpushed diff with the generator and asks for the
  confirmation of the generated message.
\<close>

theorem pushx_summarises_unpushed_counterexample:
  "map_option (\<lambda>(r, s). (r, generatorCalls s,
                  Print ''Proceed with this message? [Y/n/e(dit)]: '' \<in> set (trace s)))
     (runPushx simEnv simConfig
        (start (simRepo\<lparr>staged := [], unstaged := [], tracking := True,
                        unpushed := [''abc1234 - fix: typo'']\<rparr>) (''n'' @ [CHR 0x0A])))
   = Some (None, 1, True)"
  by code_simp

end
